theory Spec2Isabelle
  imports Main "HOL-Library.Word"
begin

section \<open>The buddy-system allocator of buddySystem.cxx\<close>

subsection \<open>Data model\<close>

text \<open>
  \<^verbatim>\<open>size_t\<close> is an unsigned 64-bit integer: arithmetic on it wraps. A \<^verbatim>\<open>void *\<close> is a byte
  address; the region comes from one \<^verbatim>\<open>malloc\<close>, so address arithmetic inside it does not
  wrap and addresses are natural numbers. The backing store maps an address to a byte.
\<close>

type_synonym size_t = "64 word"
type_synonym addr = nat
type_synonym memory = "addr \<Rightarrow> 8 word"

text \<open>
  A \<^verbatim>\<open>Buddy\<close> object has the fields \<^verbatim>\<open>memStart\<close>, \<^verbatim>\<open>memLength\<close>, \<^verbatim>\<open>size\<close>, \<^verbatim>\<open>left\<close>,
  \<^verbatim>\<open>right\<close> and \<^verbatim>\<open>terminal\<close>. The flag and the two child pointers are written together
  and nowhere else (constructor: flag 0, both pointers NULL; \<^verbatim>\<open>split\<close>: flag 1, both
  pointers fresh objects; \<^verbatim>\<open>merge\<close>: flag 0, both pointers NULL), and every node owns its
  children exclusively. So an object is one of two shapes: \<open>Leaf\<close> is \<^verbatim>\<open>terminal == 0\<close>
  with no children, \<open>Split\<close> is \<^verbatim>\<open>terminal == 1\<close> with both children. Both shapes keep
  the field \<^verbatim>\<open>memLength\<close>, as the class does. The field \<^verbatim>\<open>size\<close>, the height of the
  node, is \<open>bsize\<close> here; it is an \<^verbatim>\<open>int\<close>.
\<close>

datatype Buddy =
    Leaf (memStart: addr) (memLength: size_t) (bsize: int)
  | Split (memStart: addr) (memLength: size_t) (bsize: int) (left: Buddy) (right: Buddy)

text \<open>A \<^verbatim>\<open>Buddy *\<close> into a tree is the path to the node from the node it was asked of.\<close>

datatype dir = GoLeft | GoRight

type_synonym path = "dir list"

definition BASE_SIZE :: nat where
  "BASE_SIZE = 65536"

definition MAX_MEMORY_OFFSET :: nat where
  "MAX_MEMORY_OFFSET = 1048576"

subsection \<open>Conversions between tree height and bytes\<close>

text \<open>
  \<^verbatim>\<open>sizeToBytes\<close> returns \<^verbatim>\<open>BASE_SIZE * pow(2,size)\<close>, a double converted to \<^verbatim>\<open>size_t\<close>.
  Powers of two are exact in a double, so the value is \<open>65536 * 2 ^ size\<close> for a
  non-negative \<open>size\<close>, and \<open>65536 / 2 ^ (- size)\<close> truncated for a negative one. The
  conversion to \<^verbatim>\<open>size_t\<close> is defined by the language only while the value is below
  \<open>2 ^ 64\<close>, that is for \<open>size \<le> 47\<close>; the theorems below keep heights in that range.
\<close>

definition sizeToBytes :: "int \<Rightarrow> size_t" where
  "sizeToBytes sz =
     (if 0 \<le> sz then word_of_nat (BASE_SIZE * 2 ^ nat sz)
      else word_of_nat (BASE_SIZE div 2 ^ nat (- sz)))"

text \<open>
  The loop of \<^verbatim>\<open>bytesToSize\<close>: \<^verbatim>\<open>while(num < numBytes) { size++; num = num * 2; }\<close> with
  \<^verbatim>\<open>num\<close> a \<^verbatim>\<open>size_t\<close> that starts at 1 and \<^verbatim>\<open>size\<close> an \<^verbatim>\<open>int\<close> that starts at 0; the result
  is \<^verbatim>\<open>size-16\<close>. Once \<^verbatim>\<open>num\<close> has wrapped to 0 the loop cannot leave, so the loop is a
  partial function: \<open>None\<close> is "does not return". (A run that returns makes at most 63
  steps, so \<^verbatim>\<open>size\<close> stays far from the range of an \<^verbatim>\<open>int\<close>.)
\<close>

partial_function (option) bytesToSize_loop :: "int \<Rightarrow> size_t \<Rightarrow> size_t \<Rightarrow> int option" where
  "bytesToSize_loop sz num numBytes =
     (if num < numBytes then bytesToSize_loop (sz + 1) (num * 2) numBytes
      else Some (sz - 16))"

definition bytesToSize :: "size_t \<Rightarrow> int option" where
  "bytesToSize numBytes = bytesToSize_loop 0 1 numBytes"

subsection \<open>What \<^verbatim>\<open>bytesToSize\<close> computes\<close>

lemma unat_pow2: "k < 64 \<Longrightarrow> unat ((2::size_t) ^ k) = 2 ^ k"
proof -
  assume k: "k < 64"
  have "(2::size_t) ^ k = word_of_nat (2 ^ k)" by simp
  then have "unat ((2::size_t) ^ k) = (2 ^ k) mod 2 ^ 64"
    by (simp only: unat_of_nat) simp
  moreover have "(2::nat) ^ k < 2 ^ 64" using k by (rule power_strict_increasing) simp
  ultimately show ?thesis by simp
qed

lemma loop_char:
  "k \<le> 63 \<Longrightarrow> unat nb \<le> 2 ^ 63 \<Longrightarrow>
   \<exists>j. k \<le> j \<and> j \<le> 63 \<and> bytesToSize_loop sz (2 ^ k) nb = Some (sz + int j - int k - 16)
      \<and> unat nb \<le> 2 ^ j \<and> (\<forall>i. k \<le> i \<and> i < j \<longrightarrow> 2 ^ i < unat nb)"
proof (induction "63 - k" arbitrary: k sz)
  case 0
  then have k: "k = 63" by simp
  have "\<not> (2::size_t) ^ k < nb"
    using 0 k by (simp add: word_less_nat_alt unat_pow2)
  then have "bytesToSize_loop sz (2 ^ k) nb = Some (sz - 16)"
    by (subst bytesToSize_loop.simps) simp
  with 0 k show ?case by (intro exI[of _ 63]) simp
next
  case (Suc n)
  then have k: "k < 63" by simp
  show ?case
  proof (cases "(2::size_t) ^ k < nb")
    case True
    have n: "n = 63 - Suc k" using Suc.hyps(2) by simp
    have k': "Suc k \<le> 63" using k by simp
    from Suc.hyps(1)[OF n k' Suc.prems(2), of "sz + 1"]
    obtain j where j: "Suc k \<le> j" "j \<le> 63"
      "bytesToSize_loop (sz + 1) (2 ^ Suc k) nb = Some (sz + 1 + int j - int (Suc k) - 16)"
      "unat nb \<le> 2 ^ j" "\<forall>i. Suc k \<le> i \<and> i < j \<longrightarrow> 2 ^ i < unat nb"
      by blast
    have lt: "2 ^ k < unat nb" using True k by (simp add: word_less_nat_alt unat_pow2)
    have "bytesToSize_loop sz (2 ^ k) nb = bytesToSize_loop (sz + 1) (2 ^ Suc k) nb"
      using True by (subst bytesToSize_loop.simps) (simp add: mult.commute)
    then have "bytesToSize_loop sz (2 ^ k) nb = Some (sz + int j - int k - 16)"
      using j(3) by simp
    moreover have "\<forall>i. k \<le> i \<and> i < j \<longrightarrow> 2 ^ i < unat nb"
    proof (intro allI impI)
      fix i assume "k \<le> i \<and> i < j"
      then consider "i = k" | "Suc k \<le> i \<and> i < j" by linarith
      then show "2 ^ i < unat nb" using lt j(5) by cases auto
    qed
    ultimately show ?thesis using j(1,2,4) by (intro exI[of _ j]) simp
  next
    case False
    then have "bytesToSize_loop sz (2 ^ k) nb = Some (sz - 16)"
      by (subst bytesToSize_loop.simps) simp
    moreover have "unat nb \<le> 2 ^ k" using False k by (simp add: word_less_nat_alt unat_pow2)
    ultimately show ?thesis using k by (intro exI[of _ k]) simp
  qed
qed

lemma bytesToSize_char:
  assumes "unat nb \<le> 2 ^ 63"
  shows "\<exists>j. j \<le> 63 \<and> bytesToSize nb = Some (int j - 16) \<and> unat nb \<le> 2 ^ j
      \<and> (\<forall>i < j. 2 ^ i < unat nb)"
  using loop_char[of 0 nb 0] assms by (auto simp: bytesToSize_def)

lemma bytesToSize_small:
  assumes "unat nb \<le> 2 ^ 16" and "bytesToSize nb = Some k"
  shows "k \<le> 0"
proof -
  have "unat nb \<le> 2 ^ 63" using assms(1) by simp
  from bytesToSize_char[OF this] obtain j where j: "j \<le> 63" "bytesToSize nb = Some (int j - 16)"
    "\<forall>i < j. 2 ^ i < unat nb" by blast
  have "j \<le> 16"
  proof (rule ccontr)
    assume "\<not> j \<le> 16"
    then have "16 < j" by simp
    with j(3) have "(2::nat) ^ 16 < unat nb" by blast
    then show False using assms(1) by simp
  qed
  then show ?thesis using j(2) assms(2) by simp
qed

lemma unat_sizeToBytes_nonpos: "sz \<le> 0 \<Longrightarrow> unat (sizeToBytes sz) \<le> 2 ^ 16"
proof -
  assume s: "sz \<le> 0"
  have d: "(65536::nat) div 2 ^ nat (- sz) \<le> 65536" by (rule div_le_dividend)
  show ?thesis
  proof (cases "sz = 0")
    case True
    then show ?thesis by (simp add: sizeToBytes_def BASE_SIZE_def)
  next
    case False
    then have "sizeToBytes sz = word_of_nat (65536 div 2 ^ nat (- sz))"
      using s by (simp add: sizeToBytes_def BASE_SIZE_def)
    then have "unat (sizeToBytes sz) = (65536 div 2 ^ nat (- sz)) mod 2 ^ 64"
      by (simp only: unat_of_nat) simp
    also have "\<dots> \<le> 65536 div 2 ^ nat (- sz)" by (rule mod_less_eq_dividend)
    finally have "unat (sizeToBytes sz) \<le> 65536 div 2 ^ nat (- sz)" .
    with d have "unat (sizeToBytes sz) \<le> 65536" by (rule order_trans[rotated])
    then show ?thesis by simp
  qed
qed

lemma bytesToSize_sizeToBytes_pos:
  "bytesToSize (sizeToBytes sz) = Some k \<Longrightarrow> 0 < k \<Longrightarrow> 0 < sz"
  using bytesToSize_small[OF unat_sizeToBytes_nonpos, of sz k] by (cases "sz \<le> 0") auto

subsection \<open>\<^verbatim>\<open>bytesToSize\<close> is monotone, and never returns above \<open>2 ^ 63\<close>\<close>

lemma bytesToSize_mono_aux:
  assumes "unat b \<le> 2 ^ 63" and "b' \<le> b"
    and "bytesToSize b = Some k" and "bytesToSize b' = Some k'"
  shows "k' \<le> k"
proof -
  have le: "unat b' \<le> unat b" using assms(2) by (simp add: word_le_nat_alt)
  then have b': "unat b' \<le> 2 ^ 63" using assms(1) by simp
  from bytesToSize_char[OF assms(1)] assms(3) obtain j where
    j: "k = int j - 16" "unat b \<le> 2 ^ j" by auto
  from bytesToSize_char[OF b'] assms(4) obtain j' where
    j': "k' = int j' - 16" "\<forall>i < j'. 2 ^ i < unat b'" by auto
  have "j' \<le> j"
  proof (rule ccontr)
    assume "\<not> j' \<le> j"
    then have "j < j'" by simp
    with j'(2) have "2 ^ j < unat b'" by blast
    with le j(2) show False by simp
  qed
  then show ?thesis using j(1) j'(1) by simp
qed

lemma pow2_below: "k \<le> 64 \<Longrightarrow> unat ((2::size_t) ^ k) \<le> 2 ^ 63"
proof (cases "k = 64")
  case True
  then show ?thesis by simp
next
  case False
  assume "k \<le> 64"
  with False have k: "k \<le> 63" by simp
  then have "k < 64" by simp
  then have "unat ((2::size_t) ^ k) = 2 ^ k" by (rule unat_pow2)
  moreover have "(2::nat) ^ k \<le> 2 ^ 63" using k by (rule power_increasing) simp
  ultimately show ?thesis by simp
qed

lemma pow2_double: "k \<le> 64 \<Longrightarrow> \<exists>k' \<le> 64. (2::size_t) ^ k * 2 = 2 ^ k'"
proof (cases "k = 64")
  case True
  then have "(2::size_t) ^ k * 2 = 2 ^ 64" by simp
  then show ?thesis by blast
next
  case False
  assume "k \<le> 64"
  with False have "Suc k \<le> 64" by simp
  moreover have "(2::size_t) ^ k * 2 = 2 ^ Suc k" by simp
  ultimately show ?thesis by blast
qed

lemma bytesToSize_loop_Some_not_pow2:
  assumes "bytesToSize_loop sz num nb = Some y"
  shows "2 ^ 63 < unat nb \<longrightarrow> (\<forall>k \<le> 64. num \<noteq> 2 ^ k)"
proof -
  let ?P = "\<lambda>(sz::int) (num::size_t) (nb::size_t) (y::int).
              2 ^ 63 < unat nb \<longrightarrow> (\<forall>k \<le> 64. num \<noteq> 2 ^ k)"
  have "?P sz num nb y"
  proof (rule bytesToSize_loop.raw_induct[where P = ?P, OF _ assms])
    fix f :: "int \<Rightarrow> size_t \<Rightarrow> size_t \<Rightarrow> int option"
      and sz :: int and num nb :: size_t and y :: int
    assume IH: "\<And>sz num nb y. f sz num nb = Some y \<Longrightarrow> ?P sz num nb y"
      and eq: "(if num < nb then f (sz + 1) (num * 2) nb else Some (sz - 16)) = Some y"
    show "?P sz num nb y"
    proof (intro allI impI notI)
      fix k :: nat assume big: "2 ^ 63 < unat nb" and k: "k \<le> 64" and num: "num = 2 ^ k"
      have "unat num \<le> 2 ^ 63" using pow2_below[OF k] num by simp
      then have "num < nb" using big by (simp add: word_less_nat_alt)
      with eq have f: "f (sz + 1) (num * 2) nb = Some y" by simp
      from pow2_double[OF k] num obtain k' where "k' \<le> 64" "num * 2 = 2 ^ k'" by blast
      with IH[OF f] big show False by blast
    qed
  qed
  then show ?thesis .
qed

lemma bytesToSize_diverges: "2 ^ 63 < unat nb \<Longrightarrow> bytesToSize nb = None"
proof (rule ccontr)
  assume nb: "2 ^ 63 < unat nb" and "bytesToSize nb \<noteq> None"
  then obtain y where "bytesToSize_loop 0 1 nb = Some y" by (auto simp: bytesToSize_def)
  from bytesToSize_loop_Some_not_pow2[OF this] nb have "(1::size_t) \<noteq> 2 ^ 0" by blast
  then show False by simp
qed

subsection \<open>The methods of \<^verbatim>\<open>Buddy\<close>\<close>

text \<open>
  The constructor: \<^verbatim>\<open>memStart = memBegin; size = width; left = right = NULL; terminal = 0;
  memLength = 0\<close>.
\<close>

definition newBuddy :: "addr \<Rightarrow> int \<Rightarrow> Buddy" where
  "newBuddy memBegin width = Leaf memBegin 0 width"

text \<open>The getters and the setter.\<close>

fun isTerminal :: "Buddy \<Rightarrow> bool" where
  "isTerminal (Leaf a l s) = False"
| "isTerminal (Split a l s lt rt) = True"

definition getLocation :: "Buddy \<Rightarrow> addr" where
  "getLocation b = memStart b"

definition getLength :: "Buddy \<Rightarrow> size_t" where
  "getLength b = memLength b"

definition getMaxLength :: "Buddy \<Rightarrow> size_t" where
  "getMaxLength b = sizeToBytes (bsize b)"

fun setLength :: "Buddy \<Rightarrow> size_t \<Rightarrow> Buddy" where
  "setLength (Leaf a l s) numBytes = Leaf a numBytes s"
| "setLength (Split a l s lt rt) numBytes = Split a numBytes s lt rt"

text \<open>
  \<^verbatim>\<open>split\<close> makes two new objects, \<^verbatim>\<open>new Buddy(memStart, size-1)\<close> and
  \<^verbatim>\<open>new Buddy(memStart+sizeToBytes(size-1), size-1)\<close>, and sets \<^verbatim>\<open>terminal\<close>; it leaves
  \<^verbatim>\<open>memLength\<close> as it is. \<^verbatim>\<open>merge\<close> deletes both children and clears \<^verbatim>\<open>terminal\<close>; it
  leaves \<^verbatim>\<open>memLength\<close> as it is too.
\<close>

definition split :: "Buddy \<Rightarrow> Buddy" where
  "split b =
     Split (memStart b) (memLength b) (bsize b)
       (newBuddy (memStart b) (bsize b - 1))
       (newBuddy (memStart b + unat (sizeToBytes (bsize b - 1))) (bsize b - 1))"

definition merge :: "Buddy \<Rightarrow> Buddy" where
  "merge b = Leaf (memStart b) (memLength b) (bsize b)"

text \<open>
  \<^verbatim>\<open>check\<close> returns a pointer to a node, or NULL: \<open>Some (Some p)\<close> is the node at path \<open>p\<close>
  from the node asked, \<open>Some None\<close> is NULL, and \<open>None\<close> is a call that does not return
  (\<^verbatim>\<open>bytesToSize\<close> is called first, in every node visited). The source evaluates
  \<^verbatim>\<open>left->check(numBytes)\<close> twice, once for the test and once for the result; the call has
  no effect, so the model evaluates it once.
\<close>

fun check :: "Buddy \<Rightarrow> size_t \<Rightarrow> path option option" where
  "check (Leaf a l s) numBytes =
     (case bytesToSize numBytes of
        None \<Rightarrow> None
      | Some minSize \<Rightarrow>
          if s < minSize \<or> l \<noteq> 0 then Some None else Some (Some []))"
| "check (Split a l s lt rt) numBytes =
     (case bytesToSize numBytes of
        None \<Rightarrow> None
      | Some minSize \<Rightarrow>
          if s < minSize \<or> l \<noteq> 0 then Some None
          else (case check lt numBytes of
                  None \<Rightarrow> None
                | Some (Some p) \<Rightarrow> Some (Some (GoLeft # p))
                | Some None \<Rightarrow>
                    (case check rt numBytes of
                       None \<Rightarrow> None
                     | Some (Some p) \<Rightarrow> Some (Some (GoRight # p))
                     | Some None \<Rightarrow> Some None)))"

text \<open>Following a pointer: the node at a path, and the tree with that node replaced.\<close>

fun node_at :: "Buddy \<Rightarrow> path \<Rightarrow> Buddy option" where
  "node_at b [] = Some b"
| "node_at (Split a l s lt rt) (GoLeft # p) = node_at lt p"
| "node_at (Split a l s lt rt) (GoRight # p) = node_at rt p"
| "node_at (Leaf a l s) (d # p) = None"

fun store_at :: "Buddy \<Rightarrow> path \<Rightarrow> Buddy \<Rightarrow> Buddy" where
  "store_at b [] n = n"
| "store_at (Split a l s lt rt) (GoLeft # p) n = Split a l s (store_at lt p n) rt"
| "store_at (Split a l s lt rt) (GoRight # p) n = Split a l s lt (store_at rt p n)"
| "store_at (Leaf a l s) (d # p) n = Leaf a l s"

text \<open>
  The loop of \<^verbatim>\<open>allocate\<close>,
  \<^verbatim>\<open>while(location->getMaxLength() > numBytes*2 && bytesToSize(location->getMaxLength())>0)
  { location->split(); location = location->getLeft(); }\<close>,
  followed by \<^verbatim>\<open>location->setLength(numBytes)\<close>. \<open>descend\<close> takes the node \<^verbatim>\<open>location\<close>
  points to and returns what that node has become, with the address of the final
  location. \<^verbatim>\<open>numBytes*2\<close> wraps, and \<^verbatim>\<open>&&\<close> calls \<^verbatim>\<open>bytesToSize\<close> only when the first
  test holds. The loop terminates: the second test fails at height 0 and below.
\<close>

function descend :: "Buddy \<Rightarrow> size_t \<Rightarrow> (Buddy \<times> addr) option" where
  "descend location numBytes =
     (if getMaxLength location > numBytes * 2 then
        (case bytesToSize (getMaxLength location) of
           None \<Rightarrow> None
         | Some k \<Rightarrow>
             if k > 0 then
               (case descend (left (split location)) numBytes of
                  None \<Rightarrow> None
                | Some (lt', a) \<Rightarrow>
                    Some (Split (memStart location) (memLength location) (bsize location)
                            lt' (right (split location)), a))
             else Some (setLength location numBytes, getLocation location))
      else Some (setLength location numBytes, getLocation location))"
  by pat_completeness auto
termination
proof (relation "measure (\<lambda>(location, numBytes). nat (bsize location))")
  show "wf (measure (\<lambda>(location, numBytes). nat (bsize location)))" by simp
next
  fix location :: Buddy and numBytes :: size_t and k :: int
  assume "bytesToSize (getMaxLength location) = Some k" and "0 < k"
  then have "0 < bsize location"
    unfolding getMaxLength_def by (rule bytesToSize_sizeToBytes_pos)
  then show "((left (split location), numBytes), (location, numBytes))
      \<in> measure (\<lambda>(location, numBytes). nat (bsize location))"
    by (simp add: split_def newBuddy_def)
qed

declare descend.simps [simp del]

text \<open>
  \<^verbatim>\<open>memcpy(dst, src, n)\<close> on the backing store; the source buffer is given by its bytes,
  counted from 0.
\<close>

definition memcpy :: "memory \<Rightarrow> addr \<Rightarrow> (nat \<Rightarrow> 8 word) \<Rightarrow> size_t \<Rightarrow> memory" where
  "memcpy mem dst src n = (\<lambda>x. if dst \<le> x \<and> x < dst + unat n then src (x - dst) else mem x)"

text \<open>
  \<^verbatim>\<open>allocate\<close> returns the address (\<open>None\<close> for NULL), the tree and the backing store after
  the call; the outer \<open>None\<close> is a call that does not return. The branch for a path that
  leads to no node stands for a dangling pointer; \<^verbatim>\<open>check\<close> never returns one (lemma
  \<open>check_finds_free_leaf\<close>).
\<close>

definition allocate ::
  "Buddy \<Rightarrow> memory \<Rightarrow> size_t \<Rightarrow> (nat \<Rightarrow> 8 word) \<Rightarrow> (addr option \<times> Buddy \<times> memory) option" where
  "allocate root mem numBytes data =
     (case check root numBytes of
        None \<Rightarrow> None
      | Some None \<Rightarrow> Some (None, root, mem)
      | Some (Some p) \<Rightarrow>
          (case node_at root p of
             None \<Rightarrow> None
           | Some location \<Rightarrow>
               (case descend location numBytes of
                  None \<Rightarrow> None
                | Some (location', a) \<Rightarrow>
                    Some (Some a, store_at root p location', memcpy mem a data numBytes))))"

text \<open>
  \<^verbatim>\<open>release\<close> returns its boolean and the node after the call. Addresses are compared with
  \<^verbatim>\<open>==\<close> only. In a split node there are three ways down: the address is the node's own
  (go left), it is the right child's (go right), or neither (try left, then right); a
  child that is a leaf is set to length 0 at once, without a call.

  The last statement of \<^verbatim>\<open>release\<close>: a split node whose two children are leaves with no data
  merges.
\<close>

definition merge_check :: "Buddy \<Rightarrow> Buddy" where
  "merge_check b =
     (if isTerminal b \<and> getLength (right b) = 0 \<and> \<not> isTerminal (right b)
         \<and> getLength (left b) = 0 \<and> \<not> isTerminal (left b)
      then merge b else b)"

fun release :: "Buddy \<Rightarrow> addr \<Rightarrow> bool \<times> Buddy" where
  "release (Leaf a l s) memToRelease =
     (if memToRelease = a then (True, merge_check (Leaf a 0 s))
      else (False, merge_check (Leaf a l s)))"
| "release (Split a l s lt rt) memToRelease =
     (case
        (if memToRelease = a then
           (if \<not> isTerminal lt then (True, setLength lt 0, rt)
            else (case release lt memToRelease of (r, lt') \<Rightarrow> (r, lt', rt)))
         else if memToRelease = getLocation rt then
           (if \<not> isTerminal rt then (True, lt, setLength rt 0)
            else (case release rt memToRelease of (r, rt') \<Rightarrow> (r, lt, rt')))
         else
           (case release lt memToRelease of
              (True, lt') \<Rightarrow> (True, lt', rt)
            | (False, lt') \<Rightarrow>
                (case release rt memToRelease of (r, rt') \<Rightarrow> (r, lt', rt'))))
      of (returnValue, lt', rt') \<Rightarrow> (returnValue, merge_check (Split a l s lt' rt')))"

section \<open>Tree states\<close>

subsection \<open>Leaves, and the states the operations can reach\<close>

text \<open>The unsplit leaves of a tree, left to right, each with the path that leads to it.\<close>

fun leaf_paths :: "Buddy \<Rightarrow> (path \<times> Buddy) list" where
  "leaf_paths (Leaf a l s) = [([], Leaf a l s)]"
| "leaf_paths (Split a l s lt rt) =
     map (\<lambda>(p, n). (GoLeft # p, n)) (leaf_paths lt) @
     map (\<lambda>(p, n). (GoRight # p, n)) (leaf_paths rt)"

definition leaves :: "Buddy \<Rightarrow> Buddy list" where
  "leaves t = map snd (leaf_paths t)"

text \<open>The base addresses of the leaves, and of the leaves that hold data.\<close>

definition leaf_bases :: "Buddy \<Rightarrow> addr set" where
  "leaf_bases t = set (map memStart (leaves t))"

definition occupied :: "Buddy \<Rightarrow> addr set" where
  "occupied t = set (map memStart (filter (\<lambda>n. memLength n \<noteq> 0) (leaves t)))"

text \<open>
  A tree is built by the constructor from a region and a height, and changed by
  \<^verbatim>\<open>allocate\<close> and \<^verbatim>\<open>release\<close> called on its root. The constructor's region is one that
  \<^verbatim>\<open>malloc\<close> returned, as the class comment asks, so its height is at most 46 (a region
  of \<open>2 ^ 62\<close> bytes); heights are not negative. Only calls that return are steps.
\<close>

inductive reachable :: "Buddy \<Rightarrow> bool" where
  construct: "0 \<le> width \<Longrightarrow> width \<le> 46 \<Longrightarrow> reachable (newBuddy memBegin width)"
| allocate_step:
    "reachable t \<Longrightarrow> allocate t mem numBytes data = Some (r, t', mem') \<Longrightarrow> reachable t'"
| release_step: "reachable t \<Longrightarrow> release t memToRelease = (r, t') \<Longrightarrow> reachable t'"

text \<open>
  The same, when every allocation asks for at least one byte, as the driver in \<^verbatim>\<open>main\<close>
  makes sure before it calls \<^verbatim>\<open>allocate\<close> (it asks again while the number entered is
  below 1 or above \<^verbatim>\<open>MAX_MEMORY_OFFSET\<close>).
\<close>

inductive reachable_nonzero :: "Buddy \<Rightarrow> bool" where
  construct_nz: "0 \<le> width \<Longrightarrow> width \<le> 46 \<Longrightarrow> reachable_nonzero (newBuddy memBegin width)"
| allocate_step_nz:
    "reachable_nonzero t \<Longrightarrow> numBytes \<noteq> 0 \<Longrightarrow>
     allocate t mem numBytes data = Some (r, t', mem') \<Longrightarrow> reachable_nonzero t'"
| release_step_nz:
    "reachable_nonzero t \<Longrightarrow> release t memToRelease = (r, t') \<Longrightarrow> reachable_nonzero t'"

subsection \<open>Invariants\<close>

text \<open>
  The layout \<^verbatim>\<open>split\<close> gives: the left child starts where its parent starts, the right
  child half the parent's capacity further, both one height lower; no height is negative.
\<close>

fun geom :: "Buddy \<Rightarrow> bool" where
  "geom (Leaf a l s) = (0 \<le> s)"
| "geom (Split a l s lt rt) =
     (memStart lt = a \<and> bsize lt = s - 1 \<and>
      memStart rt = a + unat (sizeToBytes (s - 1)) \<and> bsize rt = s - 1 \<and>
      geom lt \<and> geom rt)"

text \<open>A split node stores no length.\<close>

fun splitZero :: "Buddy \<Rightarrow> bool" where
  "splitZero (Leaf a l s) = True"
| "splitZero (Split a l s lt rt) = (l = 0 \<and> splitZero lt \<and> splitZero rt)"

text \<open>A leaf holds no more than its capacity.\<close>

fun fits :: "Buddy \<Rightarrow> bool" where
  "fits (Leaf a l s) = (l \<le> sizeToBytes s)"
| "fits (Split a l s lt rt) = (fits lt \<and> fits rt)"

text \<open>The condition under which \<^verbatim>\<open>release\<close> merges a node: both children free leaves.\<close>

definition free_leaf :: "Buddy \<Rightarrow> bool" where
  "free_leaf n = (getLength n = 0 \<and> \<not> isTerminal n)"

fun merged :: "Buddy \<Rightarrow> bool" where
  "merged (Leaf a l s) = True"
| "merged (Split a l s lt rt) = (\<not> (free_leaf rt \<and> free_leaf lt) \<and> merged lt \<and> merged rt)"


subsection \<open>How a release call proceeds, and what it preserves\<close>

lemma setLength_fields [simp]:
  "memStart (setLength n v) = memStart n" "bsize (setLength n v) = bsize n"
  "memLength (setLength n v) = v" "isTerminal (setLength n v) = isTerminal n"
  by (cases n; simp)+

lemma merge_check_Leaf [simp]: "merge_check (Leaf a l s) = Leaf a l s"
  by (simp add: merge_check_def)

lemma merge_check_Split:
  "merge_check (Split a l s lt rt) =
     (if free_leaf rt \<and> free_leaf lt then Leaf a l s else Split a l s lt rt)"
  by (simp add: merge_check_def free_leaf_def merge_def)

lemma release_Split_cases:
  assumes "release (Split a l s lt rt) p = (r, t')"
  obtains lt' rt' where
    "t' = merge_check (Split a l s lt' rt')"
    "(p = a \<and> \<not> isTerminal lt \<and> r \<and> lt' = setLength lt 0 \<and> rt' = rt)
      \<or> (p = a \<and> isTerminal lt \<and> release lt p = (r, lt') \<and> rt' = rt)
      \<or> (p \<noteq> a \<and> p = getLocation rt \<and> \<not> isTerminal rt \<and> r \<and> lt' = lt \<and> rt' = setLength rt 0)
      \<or> (p \<noteq> a \<and> p = getLocation rt \<and> isTerminal rt \<and> release rt p = (r, rt') \<and> lt' = lt)
      \<or> (p \<noteq> a \<and> p \<noteq> getLocation rt \<and> release lt p = (True, lt') \<and> r \<and> rt' = rt)
      \<or> (p \<noteq> a \<and> p \<noteq> getLocation rt \<and> release lt p = (False, lt') \<and> release rt p = (r, rt'))"
proof -
  obtain rl lt1 where L: "release lt p = (rl, lt1)" by (cases "release lt p")
  obtain rr rt1 where R: "release rt p = (rr, rt1)" by (cases "release rt p")
  consider (c1) "p = a" "\<not> isTerminal lt" | (c2) "p = a" "isTerminal lt"
    | (c3) "p \<noteq> a" "p = getLocation rt" "\<not> isTerminal rt"
    | (c4) "p \<noteq> a" "p = getLocation rt" "isTerminal rt"
    | (c5) "p \<noteq> a" "p \<noteq> getLocation rt" "rl"
    | (c6) "p \<noteq> a" "p \<noteq> getLocation rt" "\<not> rl"
    by blast
  then show thesis
  proof cases
    case c1 with assms that[of "setLength lt 0" rt] show ?thesis by simp
  next
    case c2 with assms L that[of lt1 rt] show ?thesis by simp
  next
    case c3 with assms that[of lt "setLength rt 0"] show ?thesis by simp
  next
    case c4 with assms R that[of lt rt1] show ?thesis by simp
  next
    case c5 with assms L that[of lt1 rt] show ?thesis by simp
  next
    case c6 with assms L R that[of lt1 rt1] show ?thesis by simp
  qed
qed

lemma release_root:
  assumes "release t p = (r, t')"
  shows "memStart t' = memStart t \<and> bsize t' = bsize t"
proof (cases t)
  case (Leaf a l s)
  with assms show ?thesis by (auto split: if_splits)
next
  case (Split a l s lt rt)
  with assms have "release (Split a l s lt rt) p = (r, t')" by simp
  then show ?thesis
  proof (cases rule: release_Split_cases)
    case (1 lt' rt')
    then show ?thesis using Split by (simp add: merge_check_Split)
  qed
qed

lemma geom_nonneg: "geom t \<Longrightarrow> 0 \<le> bsize t"
  by (induction t) auto

lemma geom_setLength [simp]: "geom (setLength n v) = geom n"
  by (cases n) simp_all

lemma splitZero_setLength_leaf: "\<not> isTerminal n \<Longrightarrow> splitZero (setLength n v)"
  by (cases n) simp_all

lemma merged_setLength [simp]: "\<not> isTerminal n \<Longrightarrow> merged (setLength n v)"
  by (cases n) simp_all

lemma fits_setLength_0: "\<not> isTerminal n \<Longrightarrow> fits (setLength n 0)"
  by (cases n) simp_all

lemma release_geom: "geom t \<Longrightarrow> release t p = (r, t') \<Longrightarrow> geom t'"
proof (induction t arbitrary: r t')
  case (Leaf a l s)
  then show ?case by (auto split: if_splits)
next
  case (Split a l s lt rt)
  from Split.prems(2) show ?case
  proof (cases rule: release_Split_cases)
    case (1 lt' rt')
    have "geom lt' \<and> memStart lt' = memStart lt \<and> bsize lt' = bsize lt"
      using 1(2) Split.IH(1) Split.prems(1) release_root[of lt p] by auto
    moreover have "geom rt' \<and> memStart rt' = memStart rt \<and> bsize rt' = bsize rt"
      using 1(2) Split.IH(2) Split.prems(1) release_root[of rt p] by auto
    ultimately show ?thesis using 1(1) Split.prems(1) geom_nonneg[of lt]
      by (auto simp: merge_check_Split split: if_splits)
  qed
qed

lemma release_splitZero: "splitZero t \<Longrightarrow> release t p = (r, t') \<Longrightarrow> splitZero t'"
proof (induction t arbitrary: r t')
  case (Leaf a l s)
  then show ?case by (auto split: if_splits)
next
  case (Split a l s lt rt)
  from Split.prems(2) show ?case
  proof (cases rule: release_Split_cases)
    case (1 lt' rt')
    have "splitZero lt'"
      using 1(2) Split.IH(1) Split.prems(1) by (auto simp: splitZero_setLength_leaf)
    moreover have "splitZero rt'"
      using 1(2) Split.IH(2) Split.prems(1) by (auto simp: splitZero_setLength_leaf)
    ultimately show ?thesis using 1(1) Split.prems(1)
      by (auto simp: merge_check_Split split: if_splits)
  qed
qed

lemma release_fits: "fits t \<Longrightarrow> splitZero t \<Longrightarrow> release t p = (r, t') \<Longrightarrow> fits t'"
proof (induction t arbitrary: r t')
  case (Leaf a l s)
  then show ?case by (auto split: if_splits)
next
  case (Split a l s lt rt)
  from Split.prems(3) show ?case
  proof (cases rule: release_Split_cases)
    case (1 lt' rt')
    have "fits lt'"
      using 1(2) Split.IH(1) Split.prems(1,2) by (auto simp: fits_setLength_0)
    moreover have "fits rt'"
      using 1(2) Split.IH(2) Split.prems(1,2) by (auto simp: fits_setLength_0)
    ultimately show ?thesis using 1(1) Split.prems(1,2)
      by (auto simp: merge_check_Split free_leaf_def getLength_def split: if_splits)
  qed
qed

lemma release_merged: "merged t \<Longrightarrow> release t p = (r, t') \<Longrightarrow> merged t'"
proof (induction t arbitrary: r t')
  case (Leaf a l s)
  then show ?case by (auto split: if_splits)
next
  case (Split a l s lt rt)
  from Split.prems(2) show ?case
  proof (cases rule: release_Split_cases)
    case (1 lt' rt')
    have "merged lt'"
      using 1(2) Split.IH(1) Split.prems(1) by auto
    moreover have "merged rt'"
      using 1(2) Split.IH(2) Split.prems(1) by auto
    ultimately show ?thesis using 1(1)
      by (auto simp: merge_check_Split split: if_splits)
  qed
qed

lemma release_failed_merged: "merged t \<Longrightarrow> release t p = (False, t') \<Longrightarrow> t' = t"
proof (induction t arbitrary: t')
  case (Leaf a l s)
  then show ?case by (auto split: if_splits)
next
  case (Split a l s lt rt)
  from Split.prems(2) show ?case
  proof (cases rule: release_Split_cases)
    case (1 lt' rt')
    have "lt' = lt \<and> rt' = rt"
      using 1(2) Split.IH Split.prems(1) by auto
    then show ?thesis using 1(1) Split.prems(1)
      by (auto simp: merge_check_Split)
  qed
qed


subsection \<open>Capacities, the search and the placement\<close>

lemma unat_sizeToBytes:
  assumes "0 \<le> s" and "s \<le> 47"
  shows "unat (sizeToBytes s) = 65536 * 2 ^ nat s"
proof -
  have "nat s \<le> 47" using assms by simp
  then have "(2::nat) ^ nat s \<le> 2 ^ 47" by (rule power_increasing) simp
  then have "(65536::nat) * 2 ^ nat s < 2 ^ 64" by simp
  moreover have "sizeToBytes s = word_of_nat (65536 * 2 ^ nat s)"
    using assms(1) by (simp add: sizeToBytes_def BASE_SIZE_def)
  then have "unat (sizeToBytes s) = (65536 * 2 ^ nat s) mod 2 ^ 64"
    by (simp only: unat_of_nat) simp
  ultimately show ?thesis by simp
qed

lemma unat_sizeToBytes_pow:
  assumes "0 \<le> s" and "s \<le> 47"
  shows "unat (sizeToBytes s) = 2 ^ (16 + nat s)"
  using unat_sizeToBytes[OF assms] by (simp add: power_add)

lemma unat_sizeToBytes_double:
  assumes "1 \<le> s" and "s \<le> 47"
  shows "unat (sizeToBytes s) = 2 * unat (sizeToBytes (s - 1))"
proof -
  have "nat s = Suc (nat (s - 1))" using assms by simp
  then have "(2::nat) ^ nat s = 2 * 2 ^ nat (s - 1)" by simp
  then show ?thesis using assms by (simp add: unat_sizeToBytes)
qed

lemma bytesToSize_Some_bound: "bytesToSize nb = Some k \<Longrightarrow> unat nb \<le> 2 ^ 63"
  using bytesToSize_diverges[of nb] by (cases "2 ^ 63 < unat nb") auto

lemma bytesToSize_fit:
  assumes "bytesToSize nb = Some k" and "0 \<le> s" and "s \<le> 47"
  shows "k \<le> s \<longleftrightarrow> nb \<le> sizeToBytes s"
proof -
  from bytesToSize_char[OF bytesToSize_Some_bound[OF assms(1)]] assms(1) obtain j where
    j: "k = int j - 16" "unat nb \<le> 2 ^ j" "\<forall>i < j. 2 ^ i < unat nb" by auto
  have cap: "unat (sizeToBytes s) = 2 ^ (16 + nat s)" by (rule unat_sizeToBytes_pow[OF assms(2,3)])
  show ?thesis
  proof
    assume "k \<le> s"
    then have "j \<le> 16 + nat s" using j(1) assms(2) by simp
    then have "(2::nat) ^ j \<le> 2 ^ (16 + nat s)" by (rule power_increasing) simp
    with j(2) have "unat nb \<le> 2 ^ (16 + nat s)" by (rule order_trans)
    then show "nb \<le> sizeToBytes s" by (simp only: word_le_nat_alt cap)
  next
    assume "nb \<le> sizeToBytes s"
    then have le: "unat nb \<le> 2 ^ (16 + nat s)" by (simp only: word_le_nat_alt cap)
    have "j \<le> 16 + nat s"
    proof (rule ccontr)
      assume "\<not> j \<le> 16 + nat s"
      then have "16 + nat s < j" by simp
      with j(3) have "2 ^ (16 + nat s) < unat nb" by blast
      with le show False by simp
    qed
    then show "k \<le> s" using j(1) assms(2) by simp
  qed
qed

lemma bytesToSize_sizeToBytes:
  assumes "0 \<le> s" and "s \<le> 47"
  shows "bytesToSize (sizeToBytes s) = Some s"
proof -
  have cap: "unat (sizeToBytes s) = 2 ^ (16 + nat s)" by (rule unat_sizeToBytes_pow[OF assms])
  have "16 + nat s \<le> 63" using assms by simp
  then have "(2::nat) ^ (16 + nat s) \<le> 2 ^ 63" by (rule power_increasing) simp
  then have "unat (sizeToBytes s) \<le> 2 ^ 63" using cap by simp
  from bytesToSize_char[OF this] obtain j where
    j: "bytesToSize (sizeToBytes s) = Some (int j - 16)" "unat (sizeToBytes s) \<le> 2 ^ j"
      "\<forall>i < j. 2 ^ i < unat (sizeToBytes s)" by blast
  have "16 + nat s \<le> j"
  proof (rule ccontr)
    assume "\<not> 16 + nat s \<le> j"
    then have "(2::nat) ^ j < 2 ^ (16 + nat s)" by simp
    with j(2) cap show False by simp
  qed
  moreover have "j \<le> 16 + nat s"
  proof (rule ccontr)
    assume "\<not> j \<le> 16 + nat s"
    then have "16 + nat s < j" by simp
    with j(3) have "2 ^ (16 + nat s) < unat (sizeToBytes s)" by blast
    with cap show False by simp
  qed
  ultimately have "int j - 16 = s" using assms(1) by simp
  with j(1) show ?thesis by simp
qed

lemma check_finds_free_leaf:
  "check t nb = Some (Some p) \<Longrightarrow>
   \<exists>a s k. node_at t p = Some (Leaf a 0 s) \<and> bytesToSize nb = Some k \<and> k \<le> s"
proof (induction t arbitrary: p)
  case (Leaf a l s)
  then show ?case by (auto split: option.splits if_splits)
next
  case (Split a l s lt rt)
  from Split.prems obtain k where k: "bytesToSize nb = Some k" "\<not> (s < k \<or> l \<noteq> 0)"
    by (auto split: option.splits if_splits)
  then have eq: "(case check lt nb of None \<Rightarrow> None
      | Some (Some p) \<Rightarrow> Some (Some (GoLeft # p))
      | Some None \<Rightarrow> (case check rt nb of None \<Rightarrow> None
           | Some (Some p) \<Rightarrow> Some (Some (GoRight # p)) | Some None \<Rightarrow> Some None)) = Some (Some p)"
    using Split.prems by simp
  show ?case
  proof (cases "check lt nb")
    case None
    with eq show ?thesis by simp
  next
    case (Some ol)
    show ?thesis
    proof (cases ol)
      case (Some q)
      with \<open>check lt nb = Some ol\<close> eq have "p = GoLeft # q" by simp
      with Split.IH(1)[of q] Some \<open>check lt nb = Some ol\<close> show ?thesis by simp
    next
      case None
      with \<open>check lt nb = Some ol\<close> eq obtain q where "check rt nb = Some (Some q)" "p = GoRight # q"
        by (auto split: option.splits)
      with Split.IH(2)[of q] show ?thesis by simp
    qed
  qed
qed

lemma node_at_geom:
  "geom t \<Longrightarrow> node_at t p = Some n \<Longrightarrow> geom n \<and> bsize n \<le> bsize t"
proof (induction t p rule: node_at.induct)
  case (1 b)
  then show ?case by simp
next
  case (2 a l s lt rt p)
  then show ?case by auto
next
  case (3 a l s lt rt p)
  then show ?case by auto
next
  case (4 a l s d p)
  then show ?case by simp
qed

lemma double_below_capacity:
  assumes "1 \<le> s" and "s \<le> 46" and "nb \<le> sizeToBytes s" and "nb * 2 < sizeToBytes s"
  shows "nb < sizeToBytes (s - 1)"
proof -
  have s47: "s \<le> 47" using assms(2) by simp
  have "nat s \<le> 46" using assms(2) by simp
  then have "(2::nat) ^ nat s \<le> 2 ^ 46" by (rule power_increasing) simp
  then have cap: "unat (sizeToBytes s) \<le> 2 ^ 62"
    using assms(1) s47 by (simp add: unat_sizeToBytes)
  have "unat nb \<le> unat (sizeToBytes s)" using assms(3) by (simp add: word_le_nat_alt)
  with cap have "unat nb * 2 < 2 ^ 64" by simp
  then have "unat (nb * 2) = unat nb * 2"
    by (simp add: unat_word_ariths)
  moreover have "unat (nb * 2) < unat (sizeToBytes s)" using assms(4) by (simp add: word_less_nat_alt)
  ultimately have "unat nb * 2 < 2 * unat (sizeToBytes (s - 1))"
    using unat_sizeToBytes_double[OF assms(1) s47] by simp
  then show ?thesis by (simp add: word_less_nat_alt)
qed

lemma descend_leaf:
  assumes "0 \<le> s" and "s \<le> 46" and "nb \<le> sizeToBytes s"
  shows "\<exists>n'. descend (Leaf a 0 s) nb = Some (n', a) \<and> memStart n' = a \<and> bsize n' = s
     \<and> geom n' \<and> splitZero n' \<and> fits n' \<and> (nb \<noteq> 0 \<longrightarrow> merged n' \<and> \<not> free_leaf n')"
  using assms
proof (induction "nat s" arbitrary: s)
  case 0
  then have s: "s = 0" by simp
  have "bytesToSize (sizeToBytes 0) = Some 0" by (rule bytesToSize_sizeToBytes) simp_all
  then have "descend (Leaf a 0 s) nb = Some (Leaf a nb s, a)"
    using s by (subst descend.simps) (simp add: getMaxLength_def getLocation_def)
  then show ?case using 0 s by (simp add: free_leaf_def getLength_def)
next
  case (Suc m)
  then have s1: "1 \<le> s" and s47: "s \<le> 47" by simp_all
  have k: "bytesToSize (sizeToBytes s) = Some s"
    using Suc.prems(1) s47 by (rule bytesToSize_sizeToBytes)
  show ?case
  proof (cases "nb * 2 < sizeToBytes s")
    case False
    then have "descend (Leaf a 0 s) nb = Some (Leaf a nb s, a)"
      by (subst descend.simps) (simp add: getMaxLength_def getLocation_def)
    then show ?thesis using Suc.prems by (simp add: free_leaf_def getLength_def)
  next
    case True
    have lt: "nb < sizeToBytes (s - 1)"
      using s1 Suc.prems(2,3) True by (rule double_below_capacity)
    have m: "m = nat (s - 1)" using Suc.hyps(2) by simp
    have "0 \<le> s - 1" "s - 1 \<le> 46" "nb \<le> sizeToBytes (s - 1)"
      using s1 Suc.prems(2) lt by simp_all
    from Suc.hyps(1)[OF m this] obtain n' where
      n': "descend (Leaf a 0 (s - 1)) nb = Some (n', a)" "memStart n' = a" "bsize n' = s - 1"
        "geom n'" "splitZero n'" "fits n'" "nb \<noteq> 0 \<longrightarrow> merged n' \<and> \<not> free_leaf n'"
      by blast
    let ?r = "newBuddy (a + unat (sizeToBytes (s - 1))) (s - 1)"
    have "descend (Leaf a 0 s) nb = Some (Split a 0 s n' ?r, a)"
      using True k s1 n'(1)
      by (subst descend.simps) (simp add: getMaxLength_def split_def newBuddy_def)
    moreover have "geom (Split a 0 s n' ?r)" using n'(2,3,4) s1 by (simp add: newBuddy_def)
    moreover have "fits (Split a 0 s n' ?r)" using n'(6) by (simp add: newBuddy_def)
    moreover have "nb \<noteq> 0 \<longrightarrow> merged (Split a 0 s n' ?r) \<and> \<not> free_leaf (Split a 0 s n' ?r)"
      using n'(7) by (simp add: newBuddy_def free_leaf_def)
    ultimately show ?thesis using n'(5) by (simp add: newBuddy_def)
  qed
qed

lemma store_at_root:
  "node_at t p = Some n \<Longrightarrow> memStart n' = memStart n \<Longrightarrow> bsize n' = bsize n \<Longrightarrow>
   memStart (store_at t p n') = memStart t \<and> bsize (store_at t p n') = bsize t"
  by (induction t p rule: node_at.induct) auto

lemma store_at_geom:
  "node_at t p = Some n \<Longrightarrow> memStart n' = memStart n \<Longrightarrow> bsize n' = bsize n \<Longrightarrow>
   geom n' \<Longrightarrow> geom t \<Longrightarrow> geom (store_at t p n')"
proof (induction t p rule: node_at.induct)
  case (1 b)
  then show ?case by simp
next
  case (2 a l s lt rt p)
  then show ?case using store_at_root[of lt p n n'] by auto
next
  case (3 a l s lt rt p)
  then show ?case using store_at_root[of rt p n n'] by auto
next
  case (4 a l s d p)
  then show ?case by simp
qed

lemma store_at_splitZero:
  "node_at t p = Some n \<Longrightarrow> splitZero n' \<Longrightarrow> splitZero t \<Longrightarrow> splitZero (store_at t p n')"
  by (induction t p rule: node_at.induct) auto

lemma store_at_fits:
  "node_at t p = Some n \<Longrightarrow> fits n' \<Longrightarrow> fits t \<Longrightarrow> fits (store_at t p n')"
  by (induction t p rule: node_at.induct) auto

lemma store_at_not_free:
  "node_at t p = Some n \<Longrightarrow> \<not> free_leaf n' \<Longrightarrow> \<not> free_leaf (store_at t p n')"
  by (induction t p rule: node_at.induct) (auto simp: free_leaf_def)

lemma store_at_merged:
  "node_at t p = Some n \<Longrightarrow> merged n' \<Longrightarrow> \<not> free_leaf n' \<Longrightarrow> merged t \<Longrightarrow>
   merged (store_at t p n')"
proof (induction t p rule: node_at.induct)
  case (1 b)
  then show ?case by simp
next
  case (2 a l s lt rt p)
  then show ?case using store_at_not_free[of lt p n n'] by auto
next
  case (3 a l s lt rt p)
  then show ?case using store_at_not_free[of rt p n n'] by auto
next
  case (4 a l s d p)
  then show ?case by simp
qed

lemma allocate_cases:
  assumes "allocate t mem nb data = Some (r, t', mem')"
  obtains (failed) "check t nb = Some None" "r = None" "t' = t" "mem' = mem"
  | (placed) p n n' a where "check t nb = Some (Some p)" "node_at t p = Some n"
      "descend n nb = Some (n', a)" "r = Some a" "t' = store_at t p n'"
      "mem' = memcpy mem a data nb"
  using assms unfolding allocate_def
  by (auto split: option.splits prod.splits)

text \<open>What a successful \<^verbatim>\<open>allocate\<close> does to a well-formed tree.\<close>

lemma allocate_placed:
  assumes "geom t" and "bsize t \<le> 46" and "check t nb = Some (Some p)"
  shows "\<exists>a s n'. node_at t p = Some (Leaf a 0 s) \<and> 0 \<le> s \<and> s \<le> 46 \<and> nb \<le> sizeToBytes s
     \<and> descend (Leaf a 0 s) nb = Some (n', a) \<and> memStart n' = a \<and> bsize n' = s
     \<and> geom n' \<and> splitZero n' \<and> fits n' \<and> (nb \<noteq> 0 \<longrightarrow> merged n' \<and> \<not> free_leaf n')"
proof -
  from check_finds_free_leaf[OF assms(3)] obtain a s k where
    n: "node_at t p = Some (Leaf a 0 s)" "bytesToSize nb = Some k" "k \<le> s" by blast
  from node_at_geom[OF assms(1) n(1)] assms(2) have s: "0 \<le> s" "s \<le> 46" by auto
  then have "s \<le> 47" by simp
  from bytesToSize_fit[OF n(2) s(1) this] n(3) have le: "nb \<le> sizeToBytes s" by simp
  from descend_leaf[OF s le, of a] n(1) s le show ?thesis by blast
qed

lemma allocate_invariants:
  assumes "allocate t mem nb data = Some (r, t', mem')" and "geom t" and "bsize t \<le> 46"
  shows "geom t' \<and> memStart t' = memStart t \<and> bsize t' = bsize t
    \<and> (splitZero t \<longrightarrow> splitZero t') \<and> (fits t \<longrightarrow> fits t')
    \<and> (nb \<noteq> 0 \<longrightarrow> merged t \<longrightarrow> merged t')"
  using assms(1)
proof (cases rule: allocate_cases)
  case failed
  then show ?thesis using assms(2) by simp
next
  case (placed p n n' a)
  from allocate_placed[OF assms(2,3) placed(1)] placed(2,3) obtain a0 s where
    n: "n = Leaf a0 0 s" "memStart n' = a0" "bsize n' = s" "geom n'" "splitZero n'" "fits n'"
       "nb \<noteq> 0 \<longrightarrow> merged n' \<and> \<not> free_leaf n'"
    by auto
  have same: "memStart n' = memStart n" "bsize n' = bsize n" using n(1,2,3) by simp_all
  show ?thesis
    using store_at_geom[OF placed(2) same n(4) assms(2)] store_at_root[OF placed(2) same]
      store_at_splitZero[OF placed(2) n(5)] store_at_fits[OF placed(2) n(6)]
      store_at_merged[OF placed(2), of n'] n(7) placed(5)
    by auto
qed


subsection \<open>Leaf addresses\<close>

lemma leaves_Leaf [simp]: "leaves (Leaf a l s) = [Leaf a l s]"
  by (simp add: leaves_def)

lemma leaves_Split [simp]: "leaves (Split a l s lt rt) = leaves lt @ leaves rt"
  by (simp add: leaves_def comp_def case_prod_unfold)

lemma leaf_bases_simps [simp]:
  "leaf_bases (Leaf a l s) = {a}"
  "leaf_bases (Split a l s lt rt) = leaf_bases lt \<union> leaf_bases rt"
  by (simp_all add: leaf_bases_def)

lemma occupied_simps [simp]:
  "occupied (Leaf a l s) = (if l \<noteq> 0 then {a} else {})"
  "occupied (Split a l s lt rt) = occupied lt \<union> occupied rt"
  by (simp_all add: occupied_def)

lemma occupied_subset_bases: "occupied t \<subseteq> leaf_bases t"
  by (induction t) auto

lemma occupied_setLength_0: "\<not> isTerminal n \<Longrightarrow> occupied (setLength n 0) = {}"
  by (cases n) simp_all

lemma leaf_bases_leaf: "\<not> isTerminal n \<Longrightarrow> leaf_bases n = {memStart n}"
  by (cases n) simp_all

lemma memStart_in_leaf_bases: "geom t \<Longrightarrow> memStart t \<in> leaf_bases t"
  by (induction t) auto

lemma sizeToBytes_pos: "0 \<le> s \<Longrightarrow> s \<le> 47 \<Longrightarrow> 0 < unat (sizeToBytes s)"
  by (simp add: unat_sizeToBytes)

lemma leaf_bases_range:
  "geom t \<Longrightarrow> bsize t \<le> 47 \<Longrightarrow> x \<in> leaf_bases t \<Longrightarrow>
   memStart t \<le> x \<and> x < memStart t + unat (sizeToBytes (bsize t))"
proof (induction t)
  case (Leaf a l s)
  then show ?case using sizeToBytes_pos[of s] by simp
next
  case (Split a l s lt rt)
  have s: "1 \<le> s" "s \<le> 47" using Split.prems(1,2) geom_nonneg[of lt] by auto
  have d: "unat (sizeToBytes s) = 2 * unat (sizeToBytes (s - 1))"
    using s by (rule unat_sizeToBytes_double)
  from Split.prems(3) consider "x \<in> leaf_bases lt" | "x \<in> leaf_bases rt" by auto
  then show ?case
  proof cases
    case 1
    with Split.IH(1) Split.prems(1) s have
      "memStart lt \<le> x \<and> x < memStart lt + unat (sizeToBytes (bsize lt))" by simp
    then show ?thesis using Split.prems(1) d by simp
  next
    case 2
    with Split.IH(2) Split.prems(1) s have
      "memStart rt \<le> x \<and> x < memStart rt + unat (sizeToBytes (bsize rt))" by simp
    then show ?thesis using Split.prems(1) d by simp
  qed
qed

lemma children_bases_apart:
  assumes "geom (Split a l s lt rt)" and "s \<le> 47"
  shows "\<forall>x \<in> leaf_bases lt. \<forall>y \<in> leaf_bases rt. x < memStart rt \<and> memStart rt \<le> y"
proof (intro ballI)
  fix x y assume x: "x \<in> leaf_bases lt" and y: "y \<in> leaf_bases rt"
  have g: "geom lt" "geom rt" "bsize lt = s - 1" "bsize rt = s - 1" "memStart lt = a"
    "memStart rt = a + unat (sizeToBytes (s - 1))" using assms(1) by simp_all
  have b: "bsize lt \<le> 47" "bsize rt \<le> 47" using g(3,4) assms(2) by simp_all
  from leaf_bases_range[OF g(1) b(1) x] leaf_bases_range[OF g(2) b(2) y] g(3,5,6)
  show "x < memStart rt \<and> memStart rt \<le> y" by simp
qed

lemma release_returns:
  "geom t \<Longrightarrow> release t p = (r, t') \<Longrightarrow> r = (p \<in> leaf_bases t)"
proof (induction t arbitrary: r t')
  case (Leaf a l s)
  then show ?case by (auto split: if_splits)
next
  case (Split a l s lt rt)
  have g: "geom lt" "geom rt" "memStart lt = a" using Split.prems(1) by simp_all
  from Split.prems(2) show ?case
  proof (cases rule: release_Split_cases)
    case (1 lt' rt')
    from 1(2) show ?thesis
    proof (elim disjE conjE)
      assume "p = a" "\<not> isTerminal lt" "r"
      then show ?thesis using g(3) leaf_bases_leaf[of lt] by simp
    next
      assume "p = a" "isTerminal lt" "release lt p = (r, lt')"
      then show ?thesis using Split.IH(1)[OF g(1)] memStart_in_leaf_bases[OF g(1)] g(3) by simp
    next
      assume "p = getLocation rt" "\<not> isTerminal rt" "r"
      then show ?thesis using leaf_bases_leaf[of rt] by (simp add: getLocation_def)
    next
      assume "p = getLocation rt" "isTerminal rt" "release rt p = (r, rt')"
      then show ?thesis using Split.IH(2)[OF g(2)] memStart_in_leaf_bases[OF g(2)]
        by (simp add: getLocation_def)
    next
      assume "release lt p = (True, lt')" "r"
      then show ?thesis using Split.IH(1)[OF g(1)] by simp
    next
      assume h: "release lt p = (False, lt')" "release rt p = (r, rt')"
      from Split.IH(1)[OF g(1) h(1)] have "p \<notin> leaf_bases lt" by simp
      moreover from Split.IH(2)[OF g(2) h(2)] have "r = (p \<in> leaf_bases rt)" .
      ultimately show ?thesis by simp
    qed
  qed
qed

lemma occupied_merge_check:
  "occupied (merge_check (Split a 0 s lt rt)) = occupied lt \<union> occupied rt"
proof (cases "free_leaf rt \<and> free_leaf lt")
  case True
  then have "occupied lt = {}" by (cases lt) (simp_all add: free_leaf_def getLength_def)
  moreover from True have "occupied rt = {}"
    by (cases rt) (simp_all add: free_leaf_def getLength_def)
  ultimately show ?thesis using True by (simp add: merge_check_Split)
next
  case False
  then have "merge_check (Split a 0 s lt rt) = Split a 0 s lt rt"
    by (auto simp: merge_check_Split)
  then show ?thesis by simp
qed

lemma release_occupied:
  "geom t \<Longrightarrow> bsize t \<le> 47 \<Longrightarrow> splitZero t \<Longrightarrow> release t p = (r, t') \<Longrightarrow>
   occupied t' = occupied t - {p}"
proof (induction t arbitrary: r t')
  case (Leaf a l s)
  then show ?case by (auto split: if_splits)
next
  case (Split a l s lt rt)
  have g: "geom lt" "geom rt" "memStart lt = a" "bsize lt = s - 1" "bsize rt = s - 1"
    using Split.prems(1) by simp_all
  have b: "bsize lt \<le> 47" "bsize rt \<le> 47" "s \<le> 47" using g(4,5) Split.prems(2) by simp_all
  have z: "splitZero lt" "splitZero rt" "l = 0" using Split.prems(3) by simp_all
  note apart = children_bases_apart[OF Split.prems(1) b(3)]
  have a_left: "a \<in> leaf_bases lt" using memStart_in_leaf_bases[OF g(1)] g(3) by simp
  have r_right: "memStart rt \<in> leaf_bases rt" by (rule memStart_in_leaf_bases[OF g(2)])
  have not_rt: "x \<in> leaf_bases lt \<Longrightarrow> x \<notin> occupied rt" for x
    using apart occupied_subset_bases[of rt] by fastforce
  have not_lt: "y \<in> leaf_bases rt \<Longrightarrow> y \<notin> occupied lt" for y
    using apart occupied_subset_bases[of lt] by fastforce
  from Split.prems(4) show ?case
  proof (cases rule: release_Split_cases)
    case (1 lt' rt')
    have "occupied lt' \<union> occupied rt' = (occupied lt \<union> occupied rt) - {p}"
      using 1(2)
    proof (elim disjE conjE)
      assume h: "p = a" "\<not> isTerminal lt" "lt' = setLength lt 0" "rt' = rt"
      have "occupied lt \<subseteq> {a}" using occupied_subset_bases[of lt] leaf_bases_leaf[OF h(2)] g(3) by simp
      then show ?thesis using h occupied_setLength_0[OF h(2)] not_rt[OF a_left] by auto
    next
      assume h: "p = a" "release lt p = (r, lt')" "rt' = rt"
      from Split.IH(1)[OF g(1) b(1) z(1) h(2)] show ?thesis using h not_rt[OF a_left] by auto
    next
      assume h: "p = getLocation rt" "\<not> isTerminal rt" "lt' = lt" "rt' = setLength rt 0"
      have "occupied rt \<subseteq> {p}"
        using occupied_subset_bases[of rt] leaf_bases_leaf[OF h(2)] h(1) by (simp add: getLocation_def)
      then show ?thesis using h occupied_setLength_0[OF h(2)] not_lt[OF r_right]
        by (auto simp: getLocation_def)
    next
      assume h: "p = getLocation rt" "release rt p = (r, rt')" "lt' = lt"
      from Split.IH(2)[OF g(2) b(2) z(2) h(2)] show ?thesis using h not_lt[OF r_right]
        by (auto simp: getLocation_def)
    next
      assume h: "release lt p = (True, lt')" "rt' = rt"
      from release_returns[OF g(1) h(1)] have "p \<in> leaf_bases lt" by simp
      with Split.IH(1)[OF g(1) b(1) z(1) h(1)] show ?thesis using h not_rt[of p] by auto
    next
      assume h: "release lt p = (False, lt')" "release rt p = (r, rt')"
      from Split.IH(1)[OF g(1) b(1) z(1) h(1)] Split.IH(2)[OF g(2) b(2) z(2) h(2)]
      show ?thesis by auto
    qed
    then show ?thesis using 1(1) z(3) occupied_merge_check[of a s lt' rt'] by simp
  qed
qed


subsection \<open>The invariants of reachable states\<close>

lemma reachable_invariants:
  "reachable t \<Longrightarrow> geom t \<and> bsize t \<le> 46 \<and> splitZero t \<and> fits t"
proof (induction rule: reachable.induct)
  case (construct width memBegin)
  then show ?case by (simp add: newBuddy_def)
next
  case (allocate_step t mem numBytes data r t' mem')
  with allocate_invariants[OF allocate_step.hyps(2)] show ?case by simp
next
  case (release_step t memToRelease r t')
  with release_geom[OF _ release_step.hyps(2)] release_root[OF release_step.hyps(2)]
    release_splitZero[OF _ release_step.hyps(2)] release_fits[OF _ _ release_step.hyps(2)]
  show ?case by simp
qed

lemma reachable_nonzero_reachable: "reachable_nonzero t \<Longrightarrow> reachable t"
  by (induction rule: reachable_nonzero.induct) (auto intro: reachable.intros)

lemma reachable_nonzero_merged: "reachable_nonzero t \<Longrightarrow> merged t"
proof (induction rule: reachable_nonzero.induct)
  case (construct_nz width memBegin)
  then show ?case by (simp add: newBuddy_def)
next
  case (allocate_step_nz t numBytes mem data r t' mem')
  from reachable_invariants[OF reachable_nonzero_reachable[OF allocate_step_nz.hyps(1)]]
  have "geom t" "bsize t \<le> 46" by simp_all
  from allocate_invariants[OF allocate_step_nz.hyps(3) this] allocate_step_nz.hyps(2)
    allocate_step_nz.IH show ?case by simp
next
  case (release_step_nz t memToRelease r t')
  then show ?case using release_merged by blast
qed

text \<open>The invariants hold of every node of a tree that has them.\<close>

lemma node_at_splitZero: "splitZero t \<Longrightarrow> node_at t p = Some n \<Longrightarrow> splitZero n"
  by (induction t p rule: node_at.induct) auto

lemma node_at_merged: "merged t \<Longrightarrow> node_at t p = Some n \<Longrightarrow> merged n"
  by (induction t p rule: node_at.induct) auto

text \<open>A maximally merged tree with no data is a single free leaf.\<close>

lemma free_leaf_Leaf [simp]: "free_leaf (Leaf a l s) = (l = 0)"
  by (simp add: free_leaf_def getLength_def)

lemma free_leaf_Split [simp]: "\<not> free_leaf (Split a l s lt rt)"
  by (simp add: free_leaf_def)

lemma no_data_is_leaf:
  "merged t \<Longrightarrow> splitZero t \<Longrightarrow> occupied t = {} \<Longrightarrow> \<exists>a s. t = Leaf a 0 s"
proof (induction t)
  case (Leaf a l s)
  then show ?case by (simp split: if_splits)
next
  case (Split a l s lt rt)
  from Split.IH(1) Split.prems obtain a1 s1 where "lt = Leaf a1 0 s1" by auto
  moreover from Split.IH(2) Split.prems obtain a2 s2 where "rt = Leaf a2 0 s2" by auto
  ultimately have "free_leaf lt \<and> free_leaf rt" by simp
  with Split.prems(1) show ?case by simp
qed


subsection \<open>What a call leaves in place\<close>

text \<open>The \<^verbatim>\<open>memLength\<close> stored at the node a path leads to, when there is such a node.\<close>

definition lengthAt :: "Buddy \<Rightarrow> path \<Rightarrow> size_t option" where
  "lengthAt t p = map_option memLength (node_at t p)"

text \<open>Every node of the tree, split or not, stores length 0.\<close>

fun all_zero :: "Buddy \<Rightarrow> bool" where
  "all_zero (Leaf a l s) = (l = 0)"
| "all_zero (Split a l s lt rt) = (l = 0 \<and> all_zero lt \<and> all_zero rt)"

text \<open>
  \<open>pruned t t'\<close>: \<open>t'\<close> is \<open>t\<close> with some split nodes turned into leaves by merges, every
  field of every remaining node as it was, and nothing but zero lengths removed.
\<close>

fun pruned :: "Buddy \<Rightarrow> Buddy \<Rightarrow> bool" where
  "pruned (Leaf a l s) t' = (t' = Leaf a l s)"
| "pruned (Split a l s lt rt) (Leaf a' l' s') =
     (a' = a \<and> l' = l \<and> s' = s \<and> all_zero lt \<and> all_zero rt)"
| "pruned (Split a l s lt rt) (Split a' l' s' lt' rt') =
     (a' = a \<and> l' = l \<and> s' = s \<and> pruned lt lt' \<and> pruned rt rt')"

lemma pruned_refl [simp]: "pruned t t"
  by (induction t) auto

lemma pruned_to_free_leaf: "pruned t t' \<Longrightarrow> free_leaf t' \<Longrightarrow> all_zero t"
  by (cases t; cases t') auto

lemma all_zero_root: "all_zero t \<Longrightarrow> memLength t = 0"
  by (cases t) simp_all

lemma all_zero_lengthAt: "all_zero t \<Longrightarrow> lengthAt t p = Some v \<Longrightarrow> v = 0"
  unfolding lengthAt_def by (induction t p rule: node_at.induct) (auto simp: all_zero_root)

lemma pruned_keeps:
  "pruned t t' \<Longrightarrow> lengthAt t' p = Some v \<Longrightarrow> lengthAt t p = Some v"
proof (induction t t' arbitrary: p rule: pruned.induct)
  case (1 a l s t')
  then show ?case by simp
next
  case (2 a l s lt rt a' l' s')
  then show ?case by (cases p) (auto simp: lengthAt_def)
next
  case (3 a l s lt rt a' l' s' lt' rt')
  show ?case
  proof (cases p)
    case Nil
    with 3 show ?thesis by (simp add: lengthAt_def)
  next
    case (Cons d q)
    with 3 show ?thesis by (cases d) (auto simp: lengthAt_def)
  qed
qed

lemma pruned_removes_zero:
  "pruned t t' \<Longrightarrow> lengthAt t p = Some v \<Longrightarrow>
   lengthAt t' p = Some v \<or> (lengthAt t' p = None \<and> v = 0)"
proof (induction t t' arbitrary: p rule: pruned.induct)
  case (1 a l s t')
  then show ?case by simp
next
  case (2 a l s lt rt a' l' s')
  show ?case
  proof (cases p)
    case Nil
    with 2 show ?thesis by (simp add: lengthAt_def)
  next
    case (Cons d q)
    with 2 all_zero_lengthAt[of lt q v] all_zero_lengthAt[of rt q v]
    show ?thesis by (cases d) (auto simp: lengthAt_def)
  qed
next
  case (3 a l s lt rt a' l' s' lt' rt')
  show ?case
  proof (cases p)
    case Nil
    with 3 show ?thesis by (simp add: lengthAt_def)
  next
    case (Cons d q)
    with 3 show ?thesis by (cases d) (auto simp: lengthAt_def)
  qed
qed

lemma pruned_merge_check:
  assumes "pruned lt lt'" and "pruned rt rt'"
  shows "pruned (Split a l s lt rt) (merge_check (Split a l s lt' rt'))"
proof (cases "free_leaf rt' \<and> free_leaf lt'")
  case True
  with assms pruned_to_free_leaf[of lt lt'] pruned_to_free_leaf[of rt rt']
  show ?thesis by (simp add: merge_check_Split)
next
  case False
  then have "merge_check (Split a l s lt' rt') = Split a l s lt' rt'"
    by (auto simp: merge_check_Split)
  with assms show ?thesis by simp
qed

lemma release_failed_pruned: "release t p = (False, t') \<Longrightarrow> pruned t t'"
proof (induction t arbitrary: t')
  case (Leaf a l s)
  then show ?case by (auto split: if_splits)
next
  case (Split a l s lt rt)
  from Split.prems show ?case
  proof (cases rule: release_Split_cases)
    case (1 lt' rt')
    have "pruned lt lt' \<and> pruned rt rt'" using 1(2) Split.IH by auto
    then show ?thesis using 1(1) pruned_merge_check by simp
  qed
qed

lemma setLength_free_leaf: "\<not> isTerminal n \<Longrightarrow> memStart n \<notin> occupied n \<Longrightarrow> setLength n 0 = n"
  by (cases n) (auto split: if_splits)

lemma release_free_pruned:
  "geom t \<Longrightarrow> p \<notin> occupied t \<Longrightarrow> release t p = (r, t') \<Longrightarrow>
   pruned t t' \<and> (merged t \<longrightarrow> t' = t)"
proof (induction t arbitrary: r t')
  case (Leaf a l s)
  then show ?case by (auto split: if_splits)
next
  case (Split a l s lt rt)
  have g: "geom lt" "geom rt" "memStart lt = a" using Split.prems(1) by simp_all
  have o: "p \<notin> occupied lt" "p \<notin> occupied rt" using Split.prems(2) by simp_all
  from Split.prems(3) show ?case
  proof (cases rule: release_Split_cases)
    case (1 lt' rt')
    have both: "(pruned lt lt' \<and> (merged lt \<longrightarrow> lt' = lt)) \<and> (pruned rt rt' \<and> (merged rt \<longrightarrow> rt' = rt))"
      using 1(2)
    proof (elim disjE conjE)
      assume h: "p = a" "\<not> isTerminal lt" "lt' = setLength lt 0" "rt' = rt"
      then show ?thesis using setLength_free_leaf[of lt] g(3) o(1) by simp
    next
      assume h: "release lt p = (r, lt')" "rt' = rt"
      with Split.IH(1)[OF g(1) o(1)] show ?thesis by simp
    next
      assume h: "p = getLocation rt" "\<not> isTerminal rt" "lt' = lt" "rt' = setLength rt 0"
      then show ?thesis using setLength_free_leaf[of rt] o(2) by (simp add: getLocation_def)
    next
      assume h: "release rt p = (r, rt')" "lt' = lt"
      with Split.IH(2)[OF g(2) o(2)] show ?thesis by simp
    next
      assume h: "release lt p = (True, lt')" "rt' = rt"
      with Split.IH(1)[OF g(1) o(1)] show ?thesis by simp
    next
      assume h: "release lt p = (False, lt')" "release rt p = (r, rt')"
      from Split.IH(1)[OF g(1) o(1) h(1)] Split.IH(2)[OF g(2) o(2) h(2)] show ?thesis by simp
    qed
    then have "pruned (Split a l s lt rt) t'" using 1(1) pruned_merge_check by simp
    moreover have "merged (Split a l s lt rt) \<longrightarrow> t' = Split a l s lt rt"
      using both 1(1) by (auto simp: merge_check_Split)
    ultimately show ?thesis by simp
  qed
qed


subsection \<open>Ranges, the leftmost candidate, and releasing everything\<close>

text \<open>The address range a node manages, and the bytes in use over all leaves.\<close>

definition block_range :: "Buddy \<Rightarrow> addr set" where
  "block_range n = {memStart n ..< memStart n + unat (getMaxLength n)}"

definition used_total :: "Buddy \<Rightarrow> nat" where
  "used_total t = sum_list (map (\<lambda>n. unat (getLength n)) (leaves t))"

lemma used_total_simps [simp]:
  "used_total (Leaf a l s) = unat l"
  "used_total (Split a l s lt rt) = used_total lt + used_total rt"
  by (simp_all add: used_total_def getLength_def)

lemma used_total_bound:
  "geom t \<Longrightarrow> bsize t \<le> 47 \<Longrightarrow> fits t \<Longrightarrow> used_total t \<le> unat (sizeToBytes (bsize t))"
proof (induction t)
  case (Leaf a l s)
  then show ?case by (simp add: word_le_nat_alt)
next
  case (Split a l s lt rt)
  have s: "1 \<le> s" "s \<le> 47" using Split.prems(1,2) geom_nonneg[of lt] by auto
  have "used_total lt \<le> unat (sizeToBytes (s - 1))" "used_total rt \<le> unat (sizeToBytes (s - 1))"
    using Split.IH Split.prems s by auto
  then show ?case using unat_sizeToBytes_double[OF s] by simp
qed

lemma leaves_in_range:
  "geom t \<Longrightarrow> bsize t \<le> 47 \<Longrightarrow> n \<in> set (leaves t) \<Longrightarrow> block_range n \<subseteq> block_range t"
proof (induction t)
  case (Leaf a l s)
  then show ?case by simp
next
  case (Split a l s lt rt)
  have s: "1 \<le> s" "s \<le> 47" using Split.prems(1,2) geom_nonneg[of lt] by auto
  have d: "unat (sizeToBytes s) = 2 * unat (sizeToBytes (s - 1))"
    using s by (rule unat_sizeToBytes_double)
  have l: "block_range lt \<subseteq> block_range (Split a l s lt rt)"
    using Split.prems(1) d by (auto simp: block_range_def getMaxLength_def)
  have r: "block_range rt \<subseteq> block_range (Split a l s lt rt)"
    using Split.prems(1) d by (auto simp: block_range_def getMaxLength_def)
  from Split.prems(3) consider "n \<in> set (leaves lt)" | "n \<in> set (leaves rt)" by auto
  then show ?case
  proof cases
    case 1
    with Split.IH(1) Split.prems(1) s have "block_range n \<subseteq> block_range lt" by simp
    with l show ?thesis by blast
  next
    case 2
    with Split.IH(2) Split.prems(1) s have "block_range n \<subseteq> block_range rt" by simp
    with r show ?thesis by blast
  qed
qed

lemma leaves_disjoint:
  "geom t \<Longrightarrow> bsize t \<le> 47 \<Longrightarrow>
   sorted_wrt (\<lambda>m n. block_range m \<inter> block_range n = {}) (leaves t)"
proof (induction t)
  case (Leaf a l s)
  then show ?case by simp
next
  case (Split a l s lt rt)
  have s: "1 \<le> s" "s \<le> 47" using Split.prems(1,2) geom_nonneg[of lt] by auto
  have b: "bsize lt \<le> 47" "bsize rt \<le> 47" "geom lt" "geom rt"
    using Split.prems(1) s by simp_all
  have apart: "block_range lt \<inter> block_range rt = {}"
    using Split.prems(1) by (auto simp: block_range_def getMaxLength_def)
  have "\<forall>m \<in> set (leaves lt). \<forall>n \<in> set (leaves rt). block_range m \<inter> block_range n = {}"
  proof (intro ballI)
    fix m n assume "m \<in> set (leaves lt)" "n \<in> set (leaves rt)"
    then have "block_range m \<subseteq> block_range lt" "block_range n \<subseteq> block_range rt"
      using leaves_in_range b by blast+
    with apart show "block_range m \<inter> block_range n = {}" by blast
  qed
  then show ?case using Split.IH b by (simp add: sorted_wrt_append)
qed

text \<open>The search, against the list of leaves.\<close>

lemma leaf_paths_bsize:
  "geom t \<Longrightarrow> (p, n) \<in> set (leaf_paths t) \<Longrightarrow> 0 \<le> bsize n \<and> bsize n \<le> bsize t"
proof (induction t arbitrary: p)
  case (Leaf a l s)
  then show ?case by auto
next
  case (Split a l s lt rt)
  then show ?case by fastforce
qed

lemma find_none_iff: "find P xs = None \<longleftrightarrow> (\<forall>x \<in> set xs. \<not> P x)"
  by (induction xs) auto

lemma find_append': "find P (xs @ ys) = (case find P xs of None \<Rightarrow> find P ys | Some x \<Rightarrow> Some x)"
  by (induction xs) auto

lemma find_map': "find P (map f xs) = map_option f (find (\<lambda>x. P (f x)) xs)"
  by (induction xs) auto

definition candidate :: "size_t \<Rightarrow> Buddy \<Rightarrow> bool" where
  "candidate numBytes n = (getLength n = 0 \<and> numBytes \<le> getMaxLength n)"

lemma check_leftmost:
  assumes "bytesToSize nb = Some k"
  shows "geom t \<Longrightarrow> bsize t \<le> 47 \<Longrightarrow> splitZero t \<Longrightarrow>
    check t nb = Some (map_option fst (find (\<lambda>(p, n). candidate nb n) (leaf_paths t)))"
proof (induction t)
  case (Leaf a l s)
  then show ?case using assms bytesToSize_fit[OF assms, of s]
    by (auto simp: candidate_def getLength_def getMaxLength_def)
next
  case (Split a l s lt rt)
  have s: "1 \<le> s" "s \<le> 47" using Split.prems(1,2) geom_nonneg[of lt] by auto
  have ih: "check lt nb = Some (map_option fst (find (\<lambda>(p, n). candidate nb n) (leaf_paths lt)))"
    "check rt nb = Some (map_option fst (find (\<lambda>(p, n). candidate nb n) (leaf_paths rt)))"
    using Split.IH Split.prems s by simp_all
  have l0: "l = 0" using Split.prems(3) by simp
  let ?L = "map (\<lambda>(p, n). (GoLeft # p, n)) (leaf_paths lt)"
  let ?R = "map (\<lambda>(p, n). (GoRight # p, n)) (leaf_paths rt)"
  have fl: "find (\<lambda>(p, n). candidate nb n) ?L
      = map_option (\<lambda>(p, n). (GoLeft # p, n)) (find (\<lambda>(p, n). candidate nb n) (leaf_paths lt))"
    by (simp add: find_map' case_prod_unfold)
  have fr: "find (\<lambda>(p, n). candidate nb n) ?R
      = map_option (\<lambda>(p, n). (GoRight # p, n)) (find (\<lambda>(p, n). candidate nb n) (leaf_paths rt))"
    by (simp add: find_map' case_prod_unfold)
  show ?case
  proof (cases "s < k")
    case True
    have "\<forall>x \<in> set (leaf_paths (Split a l s lt rt)). \<not> (\<lambda>(p, n). candidate nb n) x"
    proof
      fix x assume x: "x \<in> set (leaf_paths (Split a l s lt rt))"
      obtain p n where pn: "x = (p, n)" by (cases x)
      from leaf_paths_bsize[OF Split.prems(1)] x pn have n: "0 \<le> bsize n" "bsize n \<le> s" by auto
      then have "bsize n \<le> 47" using s by simp
      from bytesToSize_fit[OF assms n(1) this] True n(2) have "\<not> nb \<le> sizeToBytes (bsize n)"
        by simp
      then show "\<not> (\<lambda>(p, n). candidate nb n) x" using pn by (simp add: candidate_def getMaxLength_def)
    qed
    then have "find (\<lambda>(p, n). candidate nb n) (leaf_paths (Split a l s lt rt)) = None"
      by (simp only: find_none_iff)
    then show ?thesis using True assms by simp
  next
    case False
    show ?thesis
    proof (cases "find (\<lambda>(p, n). candidate nb n) (leaf_paths lt)")
      case None
      then show ?thesis using False assms l0 ih fl fr
        by (cases "find (\<lambda>(p, n). candidate nb n) (leaf_paths rt)")
           (auto simp: find_append')
    next
      case (Some x)
      then show ?thesis using False assms l0 ih fl
        by (cases x) (auto simp: find_append')
    qed
  qed
qed

text \<open>Releasing a list of addresses, one call after the other.\<close>

fun release_all :: "Buddy \<Rightarrow> addr list \<Rightarrow> Buddy" where
  "release_all t [] = t"
| "release_all t (p # ps) = release_all (snd (release t p)) ps"

lemma release_all_restores:
  "geom t \<Longrightarrow> bsize t \<le> 47 \<Longrightarrow> splitZero t \<Longrightarrow> merged t \<Longrightarrow> occupied t \<subseteq> set ps \<Longrightarrow>
   release_all t ps = Leaf (memStart t) 0 (bsize t)"
proof (induction ps arbitrary: t)
  case Nil
  then have "occupied t = {}" by simp
  from no_data_is_leaf[OF Nil(4,3) this] show ?case by auto
next
  case (Cons p ps)
  obtain r t1 where r: "release t p = (r, t1)" by (cases "release t p")
  have "geom t1" "splitZero t1" "merged t1"
    using release_geom[OF Cons.prems(1) r] release_splitZero[OF Cons.prems(3) r]
      release_merged[OF Cons.prems(4) r] by simp_all
  moreover have root: "memStart t1 = memStart t" "bsize t1 = bsize t"
    using release_root[OF r] by simp_all
  moreover have "occupied t1 \<subseteq> set ps"
    using release_occupied[OF Cons.prems(1,2,3) r] Cons.prems(5) by auto
  ultimately have "release_all t1 ps = Leaf (memStart t1) 0 (bsize t1)"
    using Cons.IH[of t1] Cons.prems(2) by simp
  then show ?case using r root by simp
qed

lemma allocate_whole_leaf:
  assumes "0 \<le> s" and "s \<le> 46"
  shows "allocate (Leaf a 0 s) mem (sizeToBytes s) data
      = Some (Some a, Leaf a (sizeToBytes s) s, memcpy mem a data (sizeToBytes s))"
proof -
  have s47: "s \<le> 47" using assms(2) by simp
  have k: "bytesToSize (sizeToBytes s) = Some s" by (rule bytesToSize_sizeToBytes[OF assms(1) s47])
  have c: "check (Leaf a 0 s) (sizeToBytes s) = Some (Some [])" using k by simp
  have "nat s \<le> 46" using assms(2) by simp
  then have "(2::nat) ^ nat s \<le> 2 ^ 46" by (rule power_increasing) simp
  then have "unat (sizeToBytes s) * 2 < 2 ^ 64" using assms(1) s47 by (simp add: unat_sizeToBytes)
  then have "unat (sizeToBytes s * 2) = unat (sizeToBytes s) * 2" by (simp add: unat_word_ariths)
  then have "\<not> sizeToBytes s * 2 < sizeToBytes s" by (simp add: word_less_nat_alt)
  then have "descend (Leaf a 0 s) (sizeToBytes s) = Some (Leaf a (sizeToBytes s) s, a)"
    by (subst descend.simps) (simp add: getMaxLength_def getLocation_def)
  with c show ?thesis by (simp add: allocate_def)
qed


subsection \<open>What a sequence of releases does at a node of the tree\<close>

text \<open>
  \<open>cleared t t'\<close>: \<open>t'\<close> is \<open>t\<close> after some leaves were set to length 0 and some split
  nodes were merged; no other field has changed.
\<close>

fun cleared :: "Buddy \<Rightarrow> Buddy \<Rightarrow> bool" where
  "cleared (Leaf a l s) t' = (t' = Leaf a l s \<or> t' = Leaf a 0 s)"
| "cleared (Split a l s lt rt) (Leaf a' l' s') = (a' = a \<and> (l' = l \<or> l' = 0) \<and> s' = s)"
| "cleared (Split a l s lt rt) (Split a' l' s' lt' rt') =
     (a' = a \<and> l' = l \<and> s' = s \<and> cleared lt lt' \<and> cleared rt rt')"

lemma cleared_refl [simp]: "cleared t t"
  by (induction t) auto

lemma cleared_fields: "cleared t t' \<Longrightarrow> memStart t' = memStart t \<and> bsize t' = bsize t"
  by (cases t; cases t') auto

lemma cleared_trans: "cleared t t' \<Longrightarrow> cleared t' t'' \<Longrightarrow> cleared t t''"
proof (induction t t' arbitrary: t'' rule: cleared.induct)
  case (1 a l s t')
  then show ?case by auto
next
  case (2 a l s lt rt a' l' s')
  then show ?case by auto
next
  case (3 a l s lt rt a' l' s' lt' rt')
  then show ?case by (cases t'') auto
qed

lemma cleared_setLength_0: "\<not> isTerminal n \<Longrightarrow> cleared n (setLength n 0)"
  by (cases n) simp_all

lemma cleared_merge_check:
  "cleared lt lt' \<Longrightarrow> cleared rt rt' \<Longrightarrow>
   cleared (Split a l s lt rt) (merge_check (Split a l s lt' rt'))"
  by (simp add: merge_check_Split)

lemma release_cleared: "release t p = (r, t') \<Longrightarrow> cleared t t'"
proof (induction t arbitrary: r t')
  case (Leaf a l s)
  then show ?case by (auto split: if_splits)
next
  case (Split a l s lt rt)
  from Split.prems show ?case
  proof (cases rule: release_Split_cases)
    case (1 lt' rt')
    have "cleared lt lt' \<and> cleared rt rt'"
      using 1(2) Split.IH by (auto simp: cleared_setLength_0)
    then show ?thesis using 1(1) cleared_merge_check by simp
  qed
qed

lemma release_all_cleared: "cleared t (release_all t ps)"
proof (induction ps arbitrary: t)
  case Nil
  then show ?case by simp
next
  case (Cons p ps)
  obtain r t1 where r: "release t p = (r, t1)" by (cases "release t p")
  from cleared_trans[OF release_cleared[OF r] Cons.IH[of t1]] r show ?case by simp
qed

lemma cleared_occupied: "cleared t t' \<Longrightarrow> splitZero t \<Longrightarrow> occupied t' \<subseteq> occupied t"
proof (induction t t' rule: cleared.induct)
  case (1 a l s t')
  then show ?case by auto
next
  case (2 a l s lt rt a' l' s')
  then show ?case by auto
next
  case (3 a l s lt rt a' l' s' lt' rt')
  then show ?case by auto
qed

lemma node_at_occupied: "node_at t q = Some n \<Longrightarrow> occupied n \<subseteq> occupied t"
  by (induction t q rule: node_at.induct) auto

lemma node_at_leaf_paths:
  "node_at t q = Some (Leaf a l s) \<Longrightarrow> (q, Leaf a l s) \<in> set (leaf_paths t)"
proof (induction t q rule: node_at.induct)
  case (1 b)
  then show ?case by simp
next
  case (2 a l s lt rt p)
  then show ?case by force
next
  case (3 a l s lt rt p)
  then show ?case by force
next
  case (4 a l s d p)
  then show ?case by simp
qed

lemma release_all_reachable_nonzero:
  "reachable_nonzero t \<Longrightarrow> reachable_nonzero (release_all t ps)"
proof (induction ps arbitrary: t)
  case Nil
  then show ?case by simp
next
  case (Cons p ps)
  obtain r t1 where r: "release t p = (r, t1)" by (cases "release t p")
  from release_step_nz[OF Cons.prems r] have "reachable_nonzero t1" .
  from Cons.IH[OF this] r show ?case by simp
qed

lemma release_all_occupied:
  "geom t \<Longrightarrow> bsize t \<le> 47 \<Longrightarrow> splitZero t \<Longrightarrow>
   occupied (release_all t ps) = occupied t - set ps"
proof (induction ps arbitrary: t)
  case Nil
  then show ?case by simp
next
  case (Cons p ps)
  obtain r t1 where r: "release t p = (r, t1)" by (cases "release t p")
  have "geom t1" "splitZero t1" "bsize t1 \<le> 47"
    using release_geom[OF Cons.prems(1) r] release_splitZero[OF Cons.prems(3) r]
      release_root[OF r] Cons.prems(2) by simp_all
  from Cons.IH[OF this(1,3,2)] release_occupied[OF Cons.prems r] r show ?case by auto
qed

lemma child_ranges:
  assumes "geom (Split a l s lt rt)" and "s \<le> 47"
  shows "block_range lt \<subseteq> block_range (Split a l s lt rt)"
    and "block_range rt \<subseteq> block_range (Split a l s lt rt)"
proof -
  have s: "1 \<le> s" "s \<le> 47" using assms geom_nonneg[of lt] by auto
  have d: "unat (sizeToBytes s) = 2 * unat (sizeToBytes (s - 1))"
    using s by (rule unat_sizeToBytes_double)
  show "block_range lt \<subseteq> block_range (Split a l s lt rt)"
    using assms(1) d by (auto simp: block_range_def getMaxLength_def)
  show "block_range rt \<subseteq> block_range (Split a l s lt rt)"
    using assms(1) d by (auto simp: block_range_def getMaxLength_def)
qed

lemma node_at_range:
  "node_at t q = Some n \<Longrightarrow> geom t \<Longrightarrow> bsize t \<le> 47 \<Longrightarrow> block_range n \<subseteq> block_range t"
proof (induction t q rule: node_at.induct)
  case (1 b)
  then show ?case by simp
next
  case (2 a l s lt rt p)
  then have "block_range n \<subseteq> block_range lt" by simp
  with child_ranges(1)[OF "2.prems"(2)] "2.prems"(3) show ?case by auto
next
  case (3 a l s lt rt p)
  then have "block_range n \<subseteq> block_range rt" by simp
  with child_ranges(2)[OF "3.prems"(2)] "3.prems"(3) show ?case by auto
next
  case (4 a l s d p)
  then show ?case by simp
qed

lemma block_range_fields:
  "memStart m = memStart n \<Longrightarrow> bsize m = bsize n \<Longrightarrow> block_range m = block_range n"
  by (simp add: block_range_def getMaxLength_def)

text \<open>
  A node of \<open>t\<close> is, after leaves were cleared and nodes merged, either still there, or
  inside a free leaf that took the place of one of the nodes above it.
\<close>

lemma cleared_node_at:
  "node_at t q = Some n \<Longrightarrow> cleared t t' \<Longrightarrow> geom t \<Longrightarrow> bsize t \<le> 47 \<Longrightarrow> splitZero t \<Longrightarrow>
   (\<exists>n'. node_at t' q = Some n' \<and> cleared n n')
   \<or> (\<exists>k a s. k < length q \<and> node_at t' (take k q) = Some (Leaf a 0 s) \<and> bsize n \<le> s
        \<and> block_range n \<subseteq> block_range (Leaf a 0 s))"
proof (induction t q arbitrary: t' rule: node_at.induct)
  case (1 b)
  then show ?case by simp
next
  case (2 a l s lt rt p)
  show ?case
  proof (cases t')
    case (Leaf a' l' s')
    with "2.prems" have "a' = a" "l' = 0" "s' = s" by simp_all
    moreover have "bsize n \<le> s"
      using node_at_geom[of lt p n] "2.prems"(1,3) by simp
    moreover have "block_range n \<subseteq> block_range (Leaf a 0 s)"
      using node_at_range[OF "2.prems"(1,3,4)]
        block_range_fields[of "Leaf a 0 s" "Split a l s lt rt"] by simp
    ultimately have "0 < length (GoLeft # p) \<and> node_at t' (take 0 (GoLeft # p)) = Some (Leaf a 0 s)
        \<and> bsize n \<le> s \<and> block_range n \<subseteq> block_range (Leaf a 0 s)" using Leaf by simp
    then show ?thesis by blast
  next
    case (Split a' l' s' lt' rt')
    with "2.prems" have c: "cleared lt lt'" "node_at lt p = Some n" "geom lt" "bsize lt \<le> 47"
      "splitZero lt" by simp_all
    from "2.IH"[OF c(2,1,3,4,5)] show ?thesis
    proof
      assume "\<exists>n'. node_at lt' p = Some n' \<and> cleared n n'"
      then show ?thesis using Split by simp
    next
      assume "\<exists>k a s. k < length p \<and> node_at lt' (take k p) = Some (Leaf a 0 s) \<and> bsize n \<le> s
        \<and> block_range n \<subseteq> block_range (Leaf a 0 s)"
      then obtain k a0 s0 where "k < length p" "node_at lt' (take k p) = Some (Leaf a0 0 s0)"
        "bsize n \<le> s0" "block_range n \<subseteq> block_range (Leaf a0 0 s0)" by blast
      then have "Suc k < length (GoLeft # p)
          \<and> node_at t' (take (Suc k) (GoLeft # p)) = Some (Leaf a0 0 s0) \<and> bsize n \<le> s0
          \<and> block_range n \<subseteq> block_range (Leaf a0 0 s0)"
        using Split by simp
      then show ?thesis by blast
    qed
  qed
next
  case (3 a l s lt rt p)
  show ?case
  proof (cases t')
    case (Leaf a' l' s')
    with "3.prems" have "a' = a" "l' = 0" "s' = s" by simp_all
    moreover have "bsize n \<le> s"
      using node_at_geom[of rt p n] "3.prems"(1,3) by simp
    moreover have "block_range n \<subseteq> block_range (Leaf a 0 s)"
      using node_at_range[OF "3.prems"(1,3,4)]
        block_range_fields[of "Leaf a 0 s" "Split a l s lt rt"] by simp
    ultimately have "0 < length (GoRight # p) \<and> node_at t' (take 0 (GoRight # p)) = Some (Leaf a 0 s)
        \<and> bsize n \<le> s \<and> block_range n \<subseteq> block_range (Leaf a 0 s)" using Leaf by simp
    then show ?thesis by blast
  next
    case (Split a' l' s' lt' rt')
    with "3.prems" have c: "cleared rt rt'" "node_at rt p = Some n" "geom rt" "bsize rt \<le> 47"
      "splitZero rt" by simp_all
    from "3.IH"[OF c(2,1,3,4,5)] show ?thesis
    proof
      assume "\<exists>n'. node_at rt' p = Some n' \<and> cleared n n'"
      then show ?thesis using Split by simp
    next
      assume "\<exists>k a s. k < length p \<and> node_at rt' (take k p) = Some (Leaf a 0 s) \<and> bsize n \<le> s
        \<and> block_range n \<subseteq> block_range (Leaf a 0 s)"
      then obtain k a0 s0 where "k < length p" "node_at rt' (take k p) = Some (Leaf a0 0 s0)"
        "bsize n \<le> s0" "block_range n \<subseteq> block_range (Leaf a0 0 s0)" by blast
      then have "Suc k < length (GoRight # p)
          \<and> node_at t' (take (Suc k) (GoRight # p)) = Some (Leaf a0 0 s0) \<and> bsize n \<le> s0
          \<and> block_range n \<subseteq> block_range (Leaf a0 0 s0)"
        using Split by simp
      then show ?thesis by blast
    qed
  qed
next
  case (4 a l s d p)
  then show ?case by simp
qed

lemma leaf_paths_node_at:
  "(p, c) \<in> set (leaf_paths t) \<Longrightarrow> node_at t p = Some c"
proof (induction t arbitrary: p)
  case (Leaf a l s)
  then show ?case by simp
next
  case (Split a l s lt rt)
  then show ?case by auto
qed

lemma find_Some_holds: "find P xs = Some x \<Longrightarrow> x \<in> set xs \<and> P x"
  by (induction xs) (auto split: if_splits)

lemma descend_exact_leaf:
  assumes "0 \<le> s" and "s \<le> 46"
  shows "descend (Leaf a 0 s) (sizeToBytes s) = Some (Leaf a (sizeToBytes s) s, a)"
proof -
  have s47: "s \<le> 47" using assms(2) by simp
  have "nat s \<le> 46" using assms(2) by simp
  then have "(2::nat) ^ nat s \<le> 2 ^ 46" by (rule power_increasing) simp
  then have "unat (sizeToBytes s) * 2 < 2 ^ 64" using assms(1) s47 by (simp add: unat_sizeToBytes)
  then have "unat (sizeToBytes s * 2) = unat (sizeToBytes s) * 2" by (simp add: unat_word_ariths)
  then have "\<not> sizeToBytes s * 2 < sizeToBytes s" by (simp add: word_less_nat_alt)
  then show ?thesis by (subst descend.simps) (simp add: getMaxLength_def getLocation_def)
qed

text \<open>
  A request that has a candidate is placed at the first candidate in the list of leaves,
  and the address returned is the start of that leaf.
\<close>

lemma allocate_at_leftmost:
  assumes "geom t" and "bsize t \<le> 46" and "splitZero t" and "bytesToSize nb = Some k"
    and "find (\<lambda>(p, m). candidate nb m) (leaf_paths t) = Some (p, c)"
  shows "\<exists>n'. descend c nb = Some (n', memStart c)
     \<and> allocate t mem nb data
        = Some (Some (memStart c), store_at t p n', memcpy mem (memStart c) data nb)"
proof -
  have b47: "bsize t \<le> 47" using assms(2) by simp
  from check_leftmost[OF assms(4,1) b47 assms(3)] assms(5)
  have c: "check t nb = Some (Some p)" by simp
  from find_Some_holds[OF assms(5)] have "(p, c) \<in> set (leaf_paths t)" by simp
  then have n: "node_at t p = Some c" by (rule leaf_paths_node_at)
  from allocate_placed[OF assms(1,2) c] n obtain a0 s0 n' where
    "c = Leaf a0 0 s0" "descend (Leaf a0 0 s0) nb = Some (n', a0)" by auto
  with c n show ?thesis by (simp add: allocate_def)
qed


section \<open>The properties of the specification, on the code\<close>

subsection \<open>The scenario of the reference system\<close>

text \<open>
  The scenario of the reference system: a region of 1 MiB at address 0 (height 4), then
  70000 bytes allocated, then 500000 bytes.
\<close>

definition tree_70000 :: Buddy where
  "tree_70000 =
     Split 0 0 4
       (Split 0 0 3 (Split 0 0 2 (Leaf 0 70000 1) (Leaf 131072 0 1)) (Leaf 262144 0 2))
       (Leaf 524288 0 3)"

definition tree_500000 :: Buddy where
  "tree_500000 =
     Split 0 0 4
       (Split 0 0 3 (Split 0 0 2 (Leaf 0 70000 1) (Leaf 131072 0 1)) (Leaf 262144 0 2))
       (Leaf 524288 500000 3)"

text \<open>The equations that evaluate a call on a concrete tree.\<close>

lemmas eval_simps = sizeToBytes_def BASE_SIZE_def bytesToSize_def bytesToSize_loop.simps
  getMaxLength_def getLocation_def getLength_def split_def newBuddy_def merge_def
  merge_check_def allocate_def descend.simps

lemma allocate_70000:
  "allocate (newBuddy 0 4) mem 70000 data = Some (Some 0, tree_70000, memcpy mem 0 data 70000)"
  by (simp add: eval_simps tree_70000_def)

lemma allocate_500000:
  "allocate tree_70000 mem 500000 data
     = Some (Some 524288, tree_500000, memcpy mem 524288 data 500000)"
  by (simp add: eval_simps tree_70000_def tree_500000_def)

lemma reachable_nonzero_tree_70000: "reachable_nonzero tree_70000"
proof -
  have "reachable_nonzero (newBuddy 0 4)" by (rule construct_nz) simp_all
  then show ?thesis
    by (rule allocate_step_nz[where numBytes = 70000 and mem = "\<lambda>_. 0" and data = "\<lambda>_. 0"])
       (simp_all add: allocate_70000)
qed

lemma reachable_nonzero_tree_500000: "reachable_nonzero tree_500000"
  using reachable_nonzero_tree_70000
  by (rule allocate_step_nz[where numBytes = 500000 and mem = "\<lambda>_. 0" and data = "\<lambda>_. 0"])
     (simp_all add: allocate_500000)

subsection \<open>C1: a request of exactly the capacity of a height\<close>

text \<open>
  The loop of \<^verbatim>\<open>allocate\<close> splits while the capacity is more than twice the request. For a
  request of exactly \<open>sizeToBytes k\<close> it therefore stops one height above \<open>k\<close>, where the
  capacity equals twice the request: in a free leaf of any height \<open>s > k\<close> the data ends
  up in a leaf of height \<open>k + 1\<close>.
\<close>

lemma descend_exact_size:
  assumes "0 \<le> k" and "k < s" and "s \<le> 46"
  shows "\<exists>n'. descend (Leaf a 0 s) (sizeToBytes k) = Some (n', a)
     \<and> node_at n' (replicate (nat (s - k - 1)) GoLeft) = Some (Leaf a (sizeToBytes k) (k + 1))"
  using assms
proof (induction "nat (s - k - 1)" arbitrary: s)
  case 0
  then have s: "s = k + 1" by simp
  have k47: "k \<le> 47" "1 \<le> s" "s \<le> 47" using 0 by simp_all
  have d: "unat (sizeToBytes s) = 2 * unat (sizeToBytes (s - 1))"
    by (rule unat_sizeToBytes_double[OF k47(2,3)])
  have "unat (sizeToBytes s) < 2 ^ 64" using unsigned_less[of "sizeToBytes s", where 'a = nat] by simp
  with d have "unat (sizeToBytes k) * 2 < 2 ^ 64" using s by simp
  then have "unat (sizeToBytes k * 2) = unat (sizeToBytes k) * 2" by (simp add: unat_word_ariths)
  then have "\<not> sizeToBytes k * 2 < sizeToBytes s" using d s by (simp add: word_less_nat_alt)
  then have "descend (Leaf a 0 s) (sizeToBytes k) = Some (Leaf a (sizeToBytes k) s, a)"
    by (subst descend.simps) (simp add: getMaxLength_def getLocation_def)
  then show ?case using s by simp
next
  case (Suc m)
  then have s: "k + 1 < s" "1 \<le> s" "s \<le> 47" "0 \<le> s" by simp_all
  have ks: "bytesToSize (sizeToBytes s) = Some s" by (rule bytesToSize_sizeToBytes[OF s(4,3)])
  have "Suc (nat k) < nat s" using s(1) Suc.prems(1) by simp
  then have "(2::nat) ^ Suc (nat k) < 2 ^ nat s" by (rule power_strict_increasing) simp
  then have "2 * unat (sizeToBytes k) < unat (sizeToBytes s)"
    using Suc.prems(1) s by (simp add: unat_sizeToBytes)
  moreover have "unat (sizeToBytes s) < 2 ^ 64"
    using unsigned_less[of "sizeToBytes s", where 'a = nat] by simp
  ultimately have dbl: "2 * unat (sizeToBytes k) < unat (sizeToBytes s)"
    and "unat (sizeToBytes k) * 2 < 2 ^ 64" by simp_all
  then have "unat (sizeToBytes k * 2) = unat (sizeToBytes k) * 2" by (simp add: unat_word_ariths)
  with dbl have lt: "sizeToBytes k * 2 < sizeToBytes s" by (simp add: word_less_nat_alt)
  have m: "m = nat (s - 1 - k - 1)" using Suc.hyps(2) by simp
  have "k < s - 1" "s - 1 \<le> 46" using s(1) Suc.prems(3) by simp_all
  from Suc.hyps(1)[OF m Suc.prems(1) this] obtain n' where
    n': "descend (Leaf a 0 (s - 1)) (sizeToBytes k) = Some (n', a)"
      "node_at n' (replicate m GoLeft) = Some (Leaf a (sizeToBytes k) (k + 1))"
    using m by auto
  let ?r = "newBuddy (a + unat (sizeToBytes (s - 1))) (s - 1)"
  have "descend (Leaf a 0 s) (sizeToBytes k) = Some (Split a 0 s n' ?r, a)"
    using lt ks s(2) n'(1)
    by (subst descend.simps) (simp add: getMaxLength_def split_def newBuddy_def)
  moreover have "nat (s - k - 1) = Suc m" using Suc.hyps(2) by simp
  ultimately show ?case using n'(2) by simp
qed

text \<open>
  C1 on the code. On a freshly constructed tree of height \<open>width\<close>, a request of exactly
  \<open>sizeToBytes k\<close> bytes with \<open>0 \<le> k < width\<close> succeeds and returns the start of the
  region, but the leaf the data is placed in, at the end of the leftmost path, has
  height \<open>k + 1\<close>: its capacity is twice the request, not the request. The leaf of
  height \<open>k\<close> that fits exactly is never made. (For \<open>k = width\<close> the root itself is
  the exact fit, lemma \<open>allocate_whole_leaf\<close>.)
\<close>

theorem exact_fit_lands_one_height_up:
  assumes "0 \<le> k" and "k < width" and "width \<le> 46"
  shows "\<exists>t'. allocate (newBuddy a width) mem (sizeToBytes k) data
        = Some (Some a, t', memcpy mem a data (sizeToBytes k))
     \<and> node_at t' (replicate (nat (width - k - 1)) GoLeft)
        = Some (Leaf a (sizeToBytes k) (k + 1))
     \<and> unat (getMaxLength (Leaf a (sizeToBytes k) (k + 1))) = 2 * unat (sizeToBytes k)"
proof -
  have k47: "k \<le> 47" "0 \<le> width" "1 \<le> k + 1" "k + 1 \<le> 47" using assms by simp_all
  have "bytesToSize (sizeToBytes k) = Some k" by (rule bytesToSize_sizeToBytes[OF assms(1) k47(1)])
  then have c: "check (newBuddy a width) (sizeToBytes k) = Some (Some [])"
    using assms(2) by (simp add: newBuddy_def)
  have d: "unat (getMaxLength (Leaf a (sizeToBytes k) (k + 1))) = 2 * unat (sizeToBytes k)"
    using unat_sizeToBytes_double[OF k47(3,4)] by (simp add: getMaxLength_def)
  from descend_exact_size[OF assms, of a] c d show ?thesis
    by (auto simp: allocate_def newBuddy_def)
qed

text \<open>
  The theorem at the failing input: a fresh region of 1 MiB at address 0 (height 4) and
  a request of \<open>sizeToBytes 1 = 131072\<close> bytes. The root is split twice only and the data
  sits in a leaf of height 2, whose capacity is 262144 bytes.
\<close>

theorem exact_fit_lands_one_height_up_witness:
  "(0::int) \<le> 1 \<and> (1::int) < 4 \<and> (4::int) \<le> 46 \<and> sizeToBytes 1 = 131072
   \<and> map_option (\<lambda>(r, t, m). (r, t)) (allocate (newBuddy 0 4) (\<lambda>_. 0) (sizeToBytes 1) (\<lambda>_. 0))
      = Some (Some 0,
          Split 0 0 4 (Split 0 0 3 (Leaf 0 131072 2) (Leaf 262144 0 2)) (Leaf 524288 0 3))
   \<and> node_at (Split 0 0 4 (Split 0 0 3 (Leaf 0 131072 2) (Leaf 262144 0 2)) (Leaf 524288 0 3))
        (replicate (nat (4 - 1 - 1)) GoLeft) = Some (Leaf 0 (sizeToBytes 1) (1 + 1))
   \<and> unat (getMaxLength (Leaf 0 (sizeToBytes 1) (1 + 1))) = 2 * unat (sizeToBytes 1)
   \<and> unat (getMaxLength (Leaf 0 131072 2)) = 262144"
proof -
  have h: "(0::int) \<le> 1" "(1::int) < 4" "(4::int) \<le> 46" by simp_all
  have e: "allocate (newBuddy 0 4) (\<lambda>_. 0) (sizeToBytes 1) (\<lambda>_. 0)
      = Some (Some 0,
          Split 0 0 4 (Split 0 0 3 (Leaf 0 131072 2) (Leaf 262144 0 2)) (Leaf 524288 0 3),
          memcpy (\<lambda>_. 0) 0 (\<lambda>_. 0) (sizeToBytes 1))"
    by (simp add: eval_simps)
  from exact_fit_lands_one_height_up[OF h, of 0 "\<lambda>_. 0" "\<lambda>_. 0"] e
  have "node_at (Split 0 0 4 (Split 0 0 3 (Leaf 0 131072 2) (Leaf 262144 0 2)) (Leaf 524288 0 3))
        (replicate (nat (4 - 1 - 1)) GoLeft) = Some (Leaf 0 (sizeToBytes 1) (1 + 1))
     \<and> unat (getMaxLength (Leaf 0 (sizeToBytes 1) (1 + 1))) = 2 * unat (sizeToBytes 1)"
    by auto
  moreover have "sizeToBytes 1 = 131072" "unat (getMaxLength (Leaf 0 131072 2)) = 262144"
    by (simp_all add: eval_simps)
  ultimately show ?thesis using e by simp
qed

subsection \<open>C2: what \<^verbatim>\<open>release\<close> reports\<close>

text \<open>
  C2, against the code. \<^verbatim>\<open>release\<close> never reads \<^verbatim>\<open>memLength\<close>: it reports success
  whenever the address is the start of a leaf. After 70000 bytes are allocated at address
  0 and released, the root is a free leaf again, and releasing address 0 a second time
  reports success, not failure.
\<close>

theorem double_release_reports_success:
  "map_option (fst \<circ> snd) (allocate (newBuddy 0 4) (\<lambda>_. 0) 70000 (\<lambda>_. 0)) = Some tree_70000
   \<and> release tree_70000 0 = (True, newBuddy 0 4)
   \<and> occupied (newBuddy 0 4) = {}
   \<and> release (newBuddy 0 4) 0 = (True, newBuddy 0 4)"
  by (simp add: allocate_70000) (simp add: eval_simps tree_70000_def)

text \<open>
  C2 as the code has it. In every reachable state and for every address \<open>p\<close>,
  \<^verbatim>\<open>release(p)\<close> returns true exactly when \<open>p\<close> is the start address of a leaf, occupied
  or free, and afterwards no leaf at \<open>p\<close> holds data. A second \<^verbatim>\<open>release(p)\<close> reports
  again whether \<open>p\<close> is the start of a leaf; it changes no \<^verbatim>\<open>memLength\<close>: every node it
  leaves has the length it had, the nodes it removes by merging had length 0, and when
  the tree had no mergeable pair before the first call the second call changes nothing.
\<close>

theorem release_reports_leaf_address:
  assumes "reachable t" and "release t p = (r, t1)" and "release t1 p = (r2, t2)"
  shows "(r \<longleftrightarrow> p \<in> leaf_bases t) \<and> p \<notin> occupied t1
    \<and> (r2 \<longleftrightarrow> p \<in> leaf_bases t1)
    \<and> (\<forall>q v. lengthAt t2 q = Some v \<longrightarrow> lengthAt t1 q = Some v)
    \<and> (\<forall>q v. lengthAt t1 q = Some v \<longrightarrow> lengthAt t2 q = Some v \<or> (lengthAt t2 q = None \<and> v = 0))
    \<and> (merged t \<longrightarrow> t2 = t1)"
proof -
  from reachable_invariants[OF assms(1)] have inv: "geom t" "bsize t \<le> 47" "splitZero t" by simp_all
  have g1: "geom t1" by (rule release_geom[OF inv(1) assms(2)])
  have "occupied t1 = occupied t - {p}" by (rule release_occupied[OF inv assms(2)])
  then have free: "p \<notin> occupied t1" by simp
  from release_free_pruned[OF g1 free assms(3)] have
    pr: "pruned t1 t2" and same: "merged t1 \<longrightarrow> t2 = t1" by simp_all
  have "merged t \<longrightarrow> t2 = t1" using same release_merged[OF _ assms(2)] by blast
  moreover have "r \<longleftrightarrow> p \<in> leaf_bases t" using release_returns[OF inv(1) assms(2)] by simp
  moreover have "r2 \<longleftrightarrow> p \<in> leaf_bases t1" using release_returns[OF g1 assms(3)] by simp
  moreover have "\<forall>q v. lengthAt t2 q = Some v \<longrightarrow> lengthAt t1 q = Some v"
    using pruned_keeps[OF pr] by blast
  moreover have "\<forall>q v. lengthAt t1 q = Some v \<longrightarrow>
      lengthAt t2 q = Some v \<or> (lengthAt t2 q = None \<and> v = 0)"
    using pruned_removes_zero[OF pr] by blast
  ultimately show ?thesis using free by blast
qed

text \<open>
  The theorem in the scenario, with the 500000 bytes still in place: releasing address 0
  twice. The first call frees the leaf and merges up to height 3; the second finds the
  merged leaf at address 0, reports success and changes nothing.
\<close>

theorem release_reports_leaf_address_witness:
  "reachable tree_500000
   \<and> release tree_500000 0 = (True, Split 0 0 4 (Leaf 0 0 3) (Leaf 524288 500000 3))
   \<and> release (Split 0 0 4 (Leaf 0 0 3) (Leaf 524288 500000 3)) 0
       = (True, Split 0 0 4 (Leaf 0 0 3) (Leaf 524288 500000 3))
   \<and> 0 \<in> leaf_bases tree_500000
   \<and> 0 \<notin> occupied (Split 0 0 4 (Leaf 0 0 3) (Leaf 524288 500000 3))
   \<and> 0 \<in> leaf_bases (Split 0 0 4 (Leaf 0 0 3) (Leaf 524288 500000 3))"
proof -
  let ?t1 = "Split 0 0 4 (Leaf 0 0 3) (Leaf 524288 500000 3)"
  have h1: "reachable tree_500000"
    by (rule reachable_nonzero_reachable[OF reachable_nonzero_tree_500000])
  have h2: "release tree_500000 0 = (True, ?t1)" by (simp add: eval_simps tree_500000_def)
  have h3: "release ?t1 0 = (True, ?t1)" by (simp add: eval_simps)
  from release_reports_leaf_address[OF h1 h2 h3]
  have "0 \<in> leaf_bases tree_500000 \<and> 0 \<notin> occupied ?t1 \<and> 0 \<in> leaf_bases ?t1" by simp
  with h1 h2 h3 show ?thesis by simp
qed


subsection \<open>C3: what the bytes-to-order conversion returns\<close>

text \<open>
  C3, against the code. For \<open>b = 1\<close> the conversion returns \<open>- 16\<close>: the loop counts the
  doublings of 1 needed to reach \<open>b\<close> and the function subtracts 16 from the count, with
  no clamp at 0.
\<close>

theorem bytesToSize_negative_below_half_block:
  "bytesToSize 1 = Some (- 16) \<and> (- 16 :: int) < 0"
  by (simp add: bytesToSize_def bytesToSize_loop.simps)

text \<open>
  C3 as the code has it. For every byte count \<open>b \<le> 2 ^ 63\<close>, \<^verbatim>\<open>bytesToSize\<close> returns, and
  its result \<open>k\<close> is the smallest integer from \<open>- 16\<close> upwards with \<open>b \<le> 2 ^ (k + 16)\<close>.
  The result is non-negative exactly when \<open>b\<close> is more than half of \<^verbatim>\<open>BASE_SIZE\<close>, and then
  it is the smallest non-negative \<open>k\<close> with \<open>b \<le> BASE_SIZE * 2 ^ k\<close>. The function is
  monotone: a smaller request never gets a larger result.
\<close>

theorem bytesToSize_is_ceil_log2_minus_16:
  assumes "unat b \<le> 2 ^ 63"
  shows "\<exists>k. bytesToSize b = Some k \<and> - 16 \<le> k
     \<and> unat b \<le> 2 ^ nat (k + 16)
     \<and> (\<forall>j. - 16 \<le> j \<and> j < k \<longrightarrow> 2 ^ nat (j + 16) < unat b)
     \<and> (0 \<le> k \<longleftrightarrow> BASE_SIZE div 2 < unat b)
     \<and> (0 \<le> k \<longrightarrow> unat b \<le> BASE_SIZE * 2 ^ nat k
           \<and> (\<forall>j. 0 \<le> j \<and> j < k \<longrightarrow> BASE_SIZE * 2 ^ nat j < unat b))
     \<and> (\<forall>b'. b' \<le> b \<longrightarrow> (\<exists>k'. bytesToSize b' = Some k' \<and> k' \<le> k))"
proof -
  from bytesToSize_char[OF assms] obtain j where
    j: "j \<le> 63" "bytesToSize b = Some (int j - 16)" "unat b \<le> 2 ^ j" "\<forall>i < j. 2 ^ i < unat b"
    by blast
  let ?k = "int j - 16"
  have nat_k: "nat (?k + 16) = j" by simp
  have low: "\<forall>i. - 16 \<le> i \<and> i < ?k \<longrightarrow> 2 ^ nat (i + 16) < unat b"
  proof (intro allI impI)
    fix i :: int assume "- 16 \<le> i \<and> i < ?k"
    then have "nat (i + 16) < j" by linarith
    with j(4) show "2 ^ nat (i + 16) < unat b" by blast
  qed
  have half: "0 \<le> ?k \<longleftrightarrow> BASE_SIZE div 2 < unat b"
  proof
    assume "0 \<le> ?k"
    then have "15 < j" by simp
    with j(4) have "(2::nat) ^ 15 < unat b" by blast
    then show "BASE_SIZE div 2 < unat b" by (simp add: BASE_SIZE_def)
  next
    assume "BASE_SIZE div 2 < unat b"
    then have "(2::nat) ^ 15 < 2 ^ j" using j(3) by (simp add: BASE_SIZE_def)
    then have "15 < j" by (simp only: power_strict_increasing_iff) 
    then show "0 \<le> ?k" by simp
  qed
  have pw: "BASE_SIZE * 2 ^ nat i = 2 ^ nat (i + 16)" if "0 \<le> i" for i :: int
  proof -
    have "nat (i + 16) = 16 + nat i" using that by simp
    then show ?thesis by (simp add: BASE_SIZE_def power_add)
  qed
  have blocks: "0 \<le> ?k \<longrightarrow> unat b \<le> BASE_SIZE * 2 ^ nat ?k
           \<and> (\<forall>i. 0 \<le> i \<and> i < ?k \<longrightarrow> BASE_SIZE * 2 ^ nat i < unat b)"
  proof (intro impI conjI allI)
    assume k0: "0 \<le> ?k"
    show "unat b \<le> BASE_SIZE * 2 ^ nat ?k" using j(3) pw[OF k0] nat_k by simp
  next
    fix i :: int assume k0: "0 \<le> ?k" and i: "0 \<le> i \<and> i < ?k"
    then have "2 ^ nat (i + 16) < unat b" using low by simp
    then show "BASE_SIZE * 2 ^ nat i < unat b" using pw[of i] i by simp
  qed
  have mono: "\<forall>b'. b' \<le> b \<longrightarrow> (\<exists>k'. bytesToSize b' = Some k' \<and> k' \<le> ?k)"
  proof (intro allI impI)
    fix b' assume le: "b' \<le> b"
    then have "unat b' \<le> unat b" by (simp add: word_le_nat_alt)
    then have "unat b' \<le> 2 ^ 63" using assms by simp
    from bytesToSize_char[OF this] obtain k' where k': "bytesToSize b' = Some k'" by blast
    from bytesToSize_mono_aux[OF assms le j(2) k'] k'
    show "\<exists>k'. bytesToSize b' = Some k' \<and> k' \<le> ?k" by blast
  qed
  show ?thesis
    apply (rule exI[of _ ?k])
    apply (intro conjI)
    using j(2) apply simp
    apply simp
    using j(3) nat_k apply simp
    using low apply blast
    using half apply blast
    using blocks apply blast
    using mono apply blast
    done
qed

text \<open>The theorem at \<open>b = 70000\<close>: order 1, and a request of one block stays at or below it.\<close>

theorem bytesToSize_witness:
  "unat (70000 :: size_t) \<le> 2 ^ 63 \<and> bytesToSize 70000 = Some 1
   \<and> BASE_SIZE * 2 ^ 0 < unat (70000 :: size_t) \<and> unat (70000 :: size_t) \<le> BASE_SIZE * 2 ^ 1
   \<and> (\<exists>k'. bytesToSize 65536 = Some k' \<and> k' \<le> 1)"
proof -
  have h: "unat (70000 :: size_t) \<le> 2 ^ 63" by simp
  have v: "bytesToSize 70000 = Some 1"
    by (simp add: bytesToSize_def bytesToSize_loop.simps)
  have le: "(65536 :: size_t) \<le> 70000" by simp
  from bytesToSize_is_ceil_log2_minus_16[OF h] v
  have "\<exists>k'. bytesToSize 65536 = Some k' \<and> k' \<le> 1" using le by auto
  then show ?thesis using h v by (simp add: BASE_SIZE_def)
qed

subsection \<open>C4: degenerate request sizes\<close>

text \<open>
  C4, against the code. \<^verbatim>\<open>allocate\<close> has no test of its own on the request size. A request
  of 0 bytes on a fresh tree of height 4 finds the root, splits it down to height 0 and
  returns address 0.
\<close>

theorem allocate_zero_bytes_splits:
  "map_option (\<lambda>(r, t, m). (r, t)) (allocate (newBuddy 0 4) (\<lambda>_. 0) 0 (\<lambda>_. 0))
     = Some (Some 0,
         Split 0 0 4
           (Split 0 0 3
              (Split 0 0 2 (Split 0 0 1 (Leaf 0 0 0) (Leaf 65536 0 0)) (Leaf 131072 0 1))
              (Leaf 262144 0 2))
           (Leaf 524288 0 3))"
  by (simp add: eval_simps)

text \<open>A request above \<open>2 ^ 63\<close> bytes is not rejected either: the call does not return.\<close>

lemma allocate_diverges: "2 ^ 63 < unat numBytes \<Longrightarrow> allocate t mem numBytes data = None"
  using bytesToSize_diverges[of numBytes] by (cases t) (simp_all add: allocate_def)

text \<open>
  C4 as the code has it. A request of more bytes than the capacity of the root, and of
  at most \<open>2 ^ 63\<close> bytes, is rejected by the first test of the search, at the root:
  \<^verbatim>\<open>check\<close> returns no candidate, and \<^verbatim>\<open>allocate\<close> returns no address and leaves the tree
  and the memory as they were. (Heights are from 0 to 47, where \<^verbatim>\<open>sizeToBytes\<close> is exact.)
\<close>

theorem allocate_rejects_oversize:
  assumes "0 \<le> bsize t" and "bsize t \<le> 47"
    and "getMaxLength t < numBytes" and "unat numBytes \<le> 2 ^ 63"
  shows "check t numBytes = Some None \<and> allocate t mem numBytes data = Some (None, t, mem)"
proof -
  from bytesToSize_char[OF assms(4)] obtain k where k: "bytesToSize numBytes = Some k" by blast
  have "\<not> numBytes \<le> sizeToBytes (bsize t)"
    using assms(3) by (simp add: getMaxLength_def not_le)
  with bytesToSize_fit[OF k assms(1,2)] have "bsize t < k" by simp
  with k have "check t numBytes = Some None" by (cases t) simp_all
  then show ?thesis by (simp add: allocate_def)
qed

text \<open>The theorem on the fresh 1 MiB tree, for one byte more than the region.\<close>

theorem allocate_rejects_oversize_witness:
  "0 \<le> bsize (newBuddy 0 4) \<and> bsize (newBuddy 0 4) \<le> 47
   \<and> getMaxLength (newBuddy 0 4) < 1048577 \<and> unat (1048577 :: size_t) \<le> 2 ^ 63
   \<and> check (newBuddy 0 4) 1048577 = Some None
   \<and> allocate (newBuddy 0 4) (\<lambda>_. 0) 1048577 (\<lambda>_. 0) = Some (None, newBuddy 0 4, \<lambda>_. 0)"
proof -
  have h: "0 \<le> bsize (newBuddy 0 4)" "bsize (newBuddy 0 4) \<le> 47"
    "getMaxLength (newBuddy 0 4) < 1048577" "unat (1048577 :: size_t) \<le> 2 ^ 63"
    by (simp_all add: newBuddy_def getMaxLength_def sizeToBytes_def BASE_SIZE_def)
  from allocate_rejects_oversize[OF h] h show ?thesis by simp
qed

subsection \<open>C5: the search for a candidate\<close>

text \<open>
  C5, against the code. For a request of more than \<open>2 ^ 63\<close> bytes no leaf is large
  enough, and the claim has \<^verbatim>\<open>check\<close> return no candidate; but \<^verbatim>\<open>check\<close> calls
  \<^verbatim>\<open>bytesToSize\<close> first, whose loop never ends for such a request.
\<close>

theorem check_does_not_return_above_2_63:
  "check (newBuddy 0 4) 9223372036854775809 = None"
  using bytesToSize_diverges[of 9223372036854775809] by (simp add: newBuddy_def)

text \<open>
  C5 as the code has it. In every reachable state and for every request of at most
  \<open>2 ^ 63\<close> bytes, \<^verbatim>\<open>check\<close> returns the first leaf, from the left, that holds no data and
  whose capacity is at least the request, and no candidate when there is no such leaf.
  \<open>leaf_paths\<close> lists the leaves of a split node with those of the left child first; a
  leaf is listed with the empty path, that is as the node \<^verbatim>\<open>check\<close> was called on.
\<close>

theorem check_returns_leftmost_candidate:
  assumes "reachable t" and "unat numBytes \<le> 2 ^ 63"
  shows "check t numBytes
     = Some (map_option fst (find (\<lambda>(p, n). candidate numBytes n) (leaf_paths t)))"
proof -
  from bytesToSize_char[OF assms(2)] obtain k where k: "bytesToSize numBytes = Some k" by blast
  from reachable_invariants[OF assms(1)] have "geom t" "bsize t \<le> 47" "splitZero t" by simp_all
  then show ?thesis by (rule check_leftmost[OF k])
qed

text \<open>
  The theorem in the scenario: after the 70000 bytes, a request of 500000 bytes passes
  over the three leaves on the left (one occupied, two too small) and gets the right
  child of the root.
\<close>

theorem check_returns_leftmost_candidate_witness:
  "reachable tree_70000 \<and> unat (500000 :: size_t) \<le> 2 ^ 63
   \<and> check tree_70000 500000 = Some (Some [GoRight])
   \<and> find (\<lambda>(p, n). candidate 500000 n) (leaf_paths tree_70000)
       = Some ([GoRight], Leaf 524288 0 3)"
proof -
  have h1: "reachable tree_70000"
    by (rule reachable_nonzero_reachable[OF reachable_nonzero_tree_70000])
  have h2: "unat (500000 :: size_t) \<le> 2 ^ 63" by simp
  have f: "find (\<lambda>(p, n). candidate 500000 n) (leaf_paths tree_70000)
       = Some ([GoRight], Leaf 524288 0 3)"
    by (simp add: tree_70000_def candidate_def getLength_def getMaxLength_def sizeToBytes_def
        BASE_SIZE_def)
  from check_returns_leftmost_candidate[OF h1 h2] f
  have "check tree_70000 500000 = Some (Some [GoRight])" by simp
  with h1 h2 f show ?thesis by simp
qed

subsection \<open>C6: releasing everything under a node\<close>

text \<open>
  C6, against the code. A request of 0 bytes splits a region of height 2 down to height
  0 and leaves two free leaves under one node. When 131072 bytes are then allocated (in
  the right child of the root) and released, no data is left in the tree, but the root is
  still split: the release call never comes by the two free leaves on the left.
\<close>

theorem release_all_leaves_root_split:
  "map_option (fst \<circ> snd) (allocate (newBuddy 0 2) (\<lambda>_. 0) 0 (\<lambda>_. 0))
     = Some (Split 0 0 2 (Split 0 0 1 (Leaf 0 0 0) (Leaf 65536 0 0)) (Leaf 131072 0 1))
   \<and> map_option (fst \<circ> snd)
        (allocate (Split 0 0 2 (Split 0 0 1 (Leaf 0 0 0) (Leaf 65536 0 0)) (Leaf 131072 0 1))
           (\<lambda>_. 0) 131072 (\<lambda>_. 0))
     = Some (Split 0 0 2 (Split 0 0 1 (Leaf 0 0 0) (Leaf 65536 0 0)) (Leaf 131072 131072 1))
   \<and> occupied (Split 0 0 2 (Split 0 0 1 (Leaf 0 0 0) (Leaf 65536 0 0)) (Leaf 131072 131072 1))
     = {131072}
   \<and> release_all (Split 0 0 2 (Split 0 0 1 (Leaf 0 0 0) (Leaf 65536 0 0)) (Leaf 131072 131072 1))
        [131072]
     = Split 0 0 2 (Split 0 0 1 (Leaf 0 0 0) (Leaf 65536 0 0)) (Leaf 131072 0 1)"
  by (simp add: eval_simps)

text \<open>
  The allocation goes to the leftmost candidate, which need not be the node that was
  restored. On a region of height 4: allocate 500000, 70000 and 200000 bytes and release
  address 0. The node at address 524288 of height 2 is then split, with one occupied leaf
  under it. Releasing that leaf restores the node to a free leaf, but the next request
  of its capacity, 262144 bytes, is placed at address 0, in the free leaf of height 3 on
  its left.
\<close>

lemma restored_node_not_leftmost:
  "map_option (fst \<circ> snd) (allocate (newBuddy 0 4) (\<lambda>_. 0) 500000 (\<lambda>_. 0))
     = Some (Split 0 0 4 (Leaf 0 500000 3) (Leaf 524288 0 3))
   \<and> map_option (fst \<circ> snd) (allocate (Split 0 0 4 (Leaf 0 500000 3) (Leaf 524288 0 3))
         (\<lambda>_. 0) 70000 (\<lambda>_. 0))
     = Some (Split 0 0 4 (Leaf 0 500000 3)
         (Split 524288 0 3 (Split 524288 0 2 (Leaf 524288 70000 1) (Leaf 655360 0 1))
            (Leaf 786432 0 2)))
   \<and> map_option (fst \<circ> snd) (allocate (Split 0 0 4 (Leaf 0 500000 3)
         (Split 524288 0 3 (Split 524288 0 2 (Leaf 524288 70000 1) (Leaf 655360 0 1))
            (Leaf 786432 0 2))) (\<lambda>_. 0) 200000 (\<lambda>_. 0))
     = Some (Split 0 0 4 (Leaf 0 500000 3)
         (Split 524288 0 3 (Split 524288 0 2 (Leaf 524288 70000 1) (Leaf 655360 0 1))
            (Leaf 786432 200000 2)))
   \<and> release (Split 0 0 4 (Leaf 0 500000 3)
         (Split 524288 0 3 (Split 524288 0 2 (Leaf 524288 70000 1) (Leaf 655360 0 1))
            (Leaf 786432 200000 2))) 0
     = (True, Split 0 0 4 (Leaf 0 0 3)
         (Split 524288 0 3 (Split 524288 0 2 (Leaf 524288 70000 1) (Leaf 655360 0 1))
            (Leaf 786432 200000 2)))
   \<and> release (Split 0 0 4 (Leaf 0 0 3)
         (Split 524288 0 3 (Split 524288 0 2 (Leaf 524288 70000 1) (Leaf 655360 0 1))
            (Leaf 786432 200000 2))) 524288
     = (True, Split 0 0 4 (Leaf 0 0 3)
         (Split 524288 0 3 (Leaf 524288 0 2) (Leaf 786432 200000 2)))
   \<and> map_option (\<lambda>(r, t, m). (r, t)) (allocate (Split 0 0 4 (Leaf 0 0 3)
         (Split 524288 0 3 (Leaf 524288 0 2) (Leaf 786432 200000 2))) (\<lambda>_. 0) 262144 (\<lambda>_. 0))
     = Some (Some 0, Split 0 0 4 (Leaf 0 262144 3)
         (Split 524288 0 3 (Leaf 524288 0 2) (Leaf 786432 200000 2)))"
  by (simp add: eval_simps)

text \<open>
  C6 as the code has it. In every state reached with allocations of at least one byte,
  and for every node \<open>n\<close> of the tree, at path \<open>q\<close> from the root: take any list of
  addresses that has the addresses of all occupied leaves under \<open>n\<close>, and call \<^verbatim>\<open>release\<close>
  on the root for each of them. Then
  \<^item> there is a free unsplit leaf (\<^verbatim>\<open>memLength\<close> 0) at \<open>q\<close>, with the address and the height
    of \<open>n\<close>, or at a node above \<open>q\<close> when the merges went on above \<open>n\<close>; its address range
    contains that of \<open>n\<close>, and it is a candidate of \<^verbatim>\<open>check\<close> for a request of the full
    capacity of \<open>n\<close>;
  \<^item> an allocation of the full capacity of \<open>n\<close> on the root succeeds, and is placed at the
    first candidate in the list of leaves, whose start it returns;
  \<^item> when the restored node is that first candidate, the allocation fills exactly that
    node and returns its address.
  The same calls made on \<open>n\<close> itself, which is what the calls on the root come to inside
  \<open>n\<close>, leave \<open>n\<close> a free leaf that an allocation of its capacity fills (the first two
  parts of the statement).
\<close>

theorem release_all_restores_node:
  assumes "reachable_nonzero root" and "node_at root q = Some n" and "occupied n \<subseteq> set ps"
  shows "release_all n ps = Leaf (memStart n) 0 (bsize n)
    \<and> allocate (release_all n ps) mem (getMaxLength n) data
        = Some (Some (memStart n), Leaf (memStart n) (getMaxLength n) (bsize n),
                memcpy mem (memStart n) data (getMaxLength n))
    \<and> (\<exists>k a s. k \<le> length q \<and> node_at (release_all root ps) (take k q) = Some (Leaf a 0 s)
          \<and> (k = length q \<longrightarrow> a = memStart n \<and> s = bsize n)
          \<and> block_range n \<subseteq> block_range (Leaf a 0 s)
          \<and> (take k q, Leaf a 0 s) \<in> set (leaf_paths (release_all root ps))
          \<and> candidate (getMaxLength n) (Leaf a 0 s))
    \<and> (\<exists>p c n'. find (\<lambda>(p, m). candidate (getMaxLength n) m) (leaf_paths (release_all root ps))
            = Some (p, c)
          \<and> allocate (release_all root ps) mem (getMaxLength n) data
            = Some (Some (memStart c), store_at (release_all root ps) p n',
                    memcpy mem (memStart c) data (getMaxLength n)))
    \<and> (find (\<lambda>(p, m). candidate (getMaxLength n) m) (leaf_paths (release_all root ps))
            = Some (q, Leaf (memStart n) 0 (bsize n))
         \<longrightarrow> allocate (release_all root ps) mem (getMaxLength n) data
            = Some (Some (memStart n),
                    store_at (release_all root ps) q (Leaf (memStart n) (getMaxLength n) (bsize n)),
                    memcpy mem (memStart n) data (getMaxLength n)))"
proof -
  have r: "reachable root" by (rule reachable_nonzero_reachable[OF assms(1)])
  from reachable_invariants[OF r] have inv: "geom root" "bsize root \<le> 46" "splitZero root"
    by simp_all
  then have r47: "bsize root \<le> 47" by simp
  from node_at_geom[OF inv(1) assms(2)] inv(2) have g: "geom n" "bsize n \<le> 46" by simp_all
  then have b47: "bsize n \<le> 47" by simp
  have n0: "0 \<le> bsize n" by (rule geom_nonneg[OF g(1)])
  have z: "splitZero n" by (rule node_at_splitZero[OF inv(3) assms(2)])
  have m: "merged n" by (rule node_at_merged[OF reachable_nonzero_merged[OF assms(1)] assms(2)])
  let ?cap = "getMaxLength n"
  have cap: "?cap = sizeToBytes (bsize n)" by (simp add: getMaxLength_def)
  have kk: "bytesToSize ?cap = Some (bsize n)"
    unfolding cap by (rule bytesToSize_sizeToBytes[OF n0 b47])
  have part1: "release_all n ps = Leaf (memStart n) 0 (bsize n)"
    by (rule release_all_restores[OF g(1) b47 z m assms(3)])
  have part2: "allocate (release_all n ps) mem ?cap data
        = Some (Some (memStart n), Leaf (memStart n) ?cap (bsize n),
                memcpy mem (memStart n) data ?cap)"
    using allocate_whole_leaf[OF n0 g(2)] part1 by (simp add: getMaxLength_def)
  let ?root' = "release_all root ps"
  let ?cand = "\<lambda>(p, m). candidate ?cap m"
  have r': "reachable_nonzero ?root'" by (rule release_all_reachable_nonzero[OF assms(1)])
  from reachable_invariants[OF reachable_nonzero_reachable[OF r']]
  have inv': "geom ?root'" "bsize ?root' \<le> 46" "splitZero ?root'" by simp_all
  have occ: "occupied ?root' = occupied root - set ps"
    by (rule release_all_occupied[OF inv(1) r47 inv(3)])
  have found: "\<exists>k a s. k \<le> length q \<and> node_at ?root' (take k q) = Some (Leaf a 0 s)
          \<and> bsize n \<le> s \<and> (k = length q \<longrightarrow> a = memStart n \<and> s = bsize n)
          \<and> block_range n \<subseteq> block_range (Leaf a 0 s)"
    using cleared_node_at[OF assms(2) release_all_cleared inv(1) r47 inv(3), of ps]
  proof
    assume "\<exists>n'. node_at ?root' q = Some n' \<and> cleared n n'"
    then obtain n' where n': "node_at ?root' q = Some n'" "cleared n n'" by blast
    have "occupied n' \<subseteq> occupied n" by (rule cleared_occupied[OF n'(2) z])
    moreover have "occupied n' \<subseteq> occupied root - set ps"
      using node_at_occupied[OF n'(1)] occ by simp
    ultimately have "occupied n' = {}" using assms(3) by blast
    from no_data_is_leaf[OF node_at_merged[OF reachable_nonzero_merged[OF r'] n'(1)]
        node_at_splitZero[OF inv'(3) n'(1)] this]
    obtain a s where "n' = Leaf a 0 s" by blast
    with cleared_fields[OF n'(2)] have eq: "n' = Leaf (memStart n) 0 (bsize n)" by simp
    have "block_range n \<subseteq> block_range (Leaf (memStart n) 0 (bsize n))"
      using block_range_fields[of n "Leaf (memStart n) 0 (bsize n)"] by simp
    with n'(1) eq have "length q \<le> length q \<and> node_at ?root' (take (length q) q)
        = Some (Leaf (memStart n) 0 (bsize n)) \<and> bsize n \<le> bsize n
        \<and> (length q = length q \<longrightarrow> memStart n = memStart n \<and> bsize n = bsize n)
        \<and> block_range n \<subseteq> block_range (Leaf (memStart n) 0 (bsize n))" by simp
    then show ?thesis by blast
  next
    assume "\<exists>k a s. k < length q \<and> node_at ?root' (take k q) = Some (Leaf a 0 s) \<and> bsize n \<le> s
        \<and> block_range n \<subseteq> block_range (Leaf a 0 s)"
    then obtain k a s where "k < length q" "node_at ?root' (take k q) = Some (Leaf a 0 s)"
      "bsize n \<le> s" "block_range n \<subseteq> block_range (Leaf a 0 s)" by blast
    then have "k \<le> length q \<and> node_at ?root' (take k q) = Some (Leaf a 0 s) \<and> bsize n \<le> s
        \<and> (k = length q \<longrightarrow> a = memStart n \<and> s = bsize n)
        \<and> block_range n \<subseteq> block_range (Leaf a 0 s)" by simp
    then show ?thesis by blast
  qed
  then obtain k a s where f: "k \<le> length q" "node_at ?root' (take k q) = Some (Leaf a 0 s)"
    "bsize n \<le> s" "k = length q \<longrightarrow> a = memStart n \<and> s = bsize n"
    "block_range n \<subseteq> block_range (Leaf a 0 s)"
    by blast
  from node_at_geom[OF inv'(1) f(2)] inv'(2) have s: "0 \<le> s" "s \<le> 47" by auto
  from bytesToSize_fit[OF kk s] f(3) have "?cap \<le> sizeToBytes s" by simp
  then have cnd: "candidate ?cap (Leaf a 0 s)"
    by (simp add: candidate_def getLength_def getMaxLength_def)
  have mem: "(take k q, Leaf a 0 s) \<in> set (leaf_paths ?root')" by (rule node_at_leaf_paths[OF f(2)])
  have part3: "\<exists>k a s. k \<le> length q \<and> node_at ?root' (take k q) = Some (Leaf a 0 s)
          \<and> (k = length q \<longrightarrow> a = memStart n \<and> s = bsize n)
          \<and> block_range n \<subseteq> block_range (Leaf a 0 s)
          \<and> (take k q, Leaf a 0 s) \<in> set (leaf_paths ?root')
          \<and> candidate ?cap (Leaf a 0 s)"
    using f(1,2,4,5) mem cnd by blast
  from mem cnd have "\<exists>x \<in> set (leaf_paths ?root'). ?cand x" by force
  then have "find ?cand (leaf_paths ?root') \<noteq> None" by (simp only: find_none_iff) blast
  then obtain p c where fnd: "find ?cand (leaf_paths ?root') = Some (p, c)" by (cases "find ?cand (leaf_paths ?root')") auto
  from allocate_at_leftmost[OF inv' kk fnd, of mem data]
  have part4: "\<exists>p c n'. find ?cand (leaf_paths ?root') = Some (p, c)
          \<and> allocate ?root' mem ?cap data
            = Some (Some (memStart c), store_at ?root' p n', memcpy mem (memStart c) data ?cap)"
    using fnd by blast
  have part5: "find ?cand (leaf_paths ?root') = Some (q, Leaf (memStart n) 0 (bsize n))
         \<longrightarrow> allocate ?root' mem ?cap data
            = Some (Some (memStart n), store_at ?root' q (Leaf (memStart n) ?cap (bsize n)),
                    memcpy mem (memStart n) data ?cap)"
  proof
    assume h: "find ?cand (leaf_paths ?root') = Some (q, Leaf (memStart n) 0 (bsize n))"
    from allocate_at_leftmost[OF inv' kk h, of mem data]
      descend_exact_leaf[OF n0 g(2), of "memStart n"]
    show "allocate ?root' mem ?cap data
            = Some (Some (memStart n), store_at ?root' q (Leaf (memStart n) ?cap (bsize n)),
                    memcpy mem (memStart n) data ?cap)"
      by (auto simp: cap)
  qed
  from part1 part2 part3 part4 part5 show ?thesis by blast
qed

text \<open>
  The theorem in the scenario, after both allocations: the left child of the root, a
  split node of height 3, and the release of address 0. The merges stop below the root,
  whose right child holds the 500000 bytes; the restored leaf at address 0 is the first
  candidate for 524288 bytes, and the allocation fills it.
\<close>

theorem release_all_restores_node_witness:
  "reachable_nonzero tree_500000
   \<and> node_at tree_500000 [GoLeft]
       = Some (Split 0 0 3 (Split 0 0 2 (Leaf 0 70000 1) (Leaf 131072 0 1)) (Leaf 262144 0 2))
   \<and> occupied (Split 0 0 3 (Split 0 0 2 (Leaf 0 70000 1) (Leaf 131072 0 1)) (Leaf 262144 0 2))
       \<subseteq> set [0]
   \<and> release_all (Split 0 0 3 (Split 0 0 2 (Leaf 0 70000 1) (Leaf 131072 0 1)) (Leaf 262144 0 2)) [0]
       = Leaf 0 0 3
   \<and> release_all tree_500000 [0] = Split 0 0 4 (Leaf 0 0 3) (Leaf 524288 500000 3)
   \<and> node_at (Split 0 0 4 (Leaf 0 0 3) (Leaf 524288 500000 3)) [GoLeft] = Some (Leaf 0 0 3)
   \<and> find (\<lambda>(p, m). candidate 524288 m) (leaf_paths (Split 0 0 4 (Leaf 0 0 3) (Leaf 524288 500000 3)))
       = Some ([GoLeft], Leaf 0 0 3)
   \<and> allocate (Split 0 0 4 (Leaf 0 0 3) (Leaf 524288 500000 3)) (\<lambda>_. 0) 524288 (\<lambda>_. 0)
       = Some (Some 0, Split 0 0 4 (Leaf 0 524288 3) (Leaf 524288 500000 3),
               memcpy (\<lambda>_. 0) 0 (\<lambda>_. 0) 524288)"
proof -
  let ?n = "Split 0 0 3 (Split 0 0 2 (Leaf 0 70000 1) (Leaf 131072 0 1)) (Leaf 262144 0 2)"
  let ?r = "Split 0 0 4 (Leaf 0 0 3) (Leaf 524288 500000 3)"
  have h2: "node_at tree_500000 [GoLeft] = Some ?n" by (simp add: tree_500000_def)
  have h3: "occupied ?n \<subseteq> set [0]" by simp
  have c: "getMaxLength ?n = 524288" by (simp add: getMaxLength_def sizeToBytes_def BASE_SIZE_def)
  have b: "release_all tree_500000 [0] = ?r" by (simp add: eval_simps tree_500000_def)
  have f: "find (\<lambda>(p, m). candidate 524288 m) (leaf_paths ?r) = Some ([GoLeft], Leaf 0 0 3)"
    by (simp add: candidate_def getLength_def getMaxLength_def sizeToBytes_def BASE_SIZE_def)
  note inst = release_all_restores_node[OF reachable_nonzero_tree_500000 h2 h3,
      of "\<lambda>_. 0" "\<lambda>_. 0"]
  from inst have a: "release_all ?n [0] = Leaf 0 0 3" by (simp only: Buddy.sel)
  from inst have "find (\<lambda>(p, m). candidate (getMaxLength ?n) m) (leaf_paths (release_all tree_500000 [0]))
            = Some ([GoLeft], Leaf (memStart ?n) 0 (bsize ?n))
         \<longrightarrow> allocate (release_all tree_500000 [0]) (\<lambda>_. 0) (getMaxLength ?n) (\<lambda>_. 0)
            = Some (Some (memStart ?n),
                    store_at (release_all tree_500000 [0]) [GoLeft]
                      (Leaf (memStart ?n) (getMaxLength ?n) (bsize ?n)),
                    memcpy (\<lambda>_. 0) (memStart ?n) (\<lambda>_. 0) (getMaxLength ?n))"
    by blast
  then have "find (\<lambda>(p, m). candidate 524288 m) (leaf_paths ?r) = Some ([GoLeft], Leaf 0 0 3)
         \<longrightarrow> allocate ?r (\<lambda>_. 0) 524288 (\<lambda>_. 0)
            = Some (Some 0, store_at ?r [GoLeft] (Leaf 0 524288 3), memcpy (\<lambda>_. 0) 0 (\<lambda>_. 0) 524288)"
    by (simp only: b c Buddy.sel)
  with f have "allocate ?r (\<lambda>_. 0) 524288 (\<lambda>_. 0)
      = Some (Some 0, Split 0 0 4 (Leaf 0 524288 3) (Leaf 524288 500000 3),
              memcpy (\<lambda>_. 0) 0 (\<lambda>_. 0) 524288)"
    by simp
  with a b f h2 h3 reachable_nonzero_tree_500000 show ?thesis by simp
qed

subsection \<open>C7: no double counting\<close>

text \<open>
  C7. In every reachable state the lengths stored in the leaves add up to at most the
  size of the region, which is the capacity \<open>BASE_SIZE * 2 ^ size\<close> of the root, and the
  address ranges of two different leaves have no address in common.
\<close>

theorem no_double_counting:
  assumes "reachable t"
  shows "used_total t \<le> BASE_SIZE * 2 ^ nat (bsize t)
    \<and> (\<forall>i j. i < j \<and> j < length (leaves t) \<longrightarrow>
          block_range (leaves t ! i) \<inter> block_range (leaves t ! j) = {})"
proof -
  from reachable_invariants[OF assms] have inv: "geom t" "bsize t \<le> 47" "fits t" by simp_all
  have "used_total t \<le> unat (sizeToBytes (bsize t))" by (rule used_total_bound[OF inv])
  then have "used_total t \<le> BASE_SIZE * 2 ^ nat (bsize t)"
    using unat_sizeToBytes[OF geom_nonneg[OF inv(1)] inv(2)] by (simp add: BASE_SIZE_def)
  moreover have "\<forall>i j. i < j \<and> j < length (leaves t) \<longrightarrow>
      block_range (leaves t ! i) \<inter> block_range (leaves t ! j) = {}"
    using leaves_disjoint[OF inv(1,2)] by (simp add: sorted_wrt_iff_nth_less)
  ultimately show ?thesis by simp
qed

text \<open>
  The theorem in the scenario, after both allocations: 570000 bytes in use out of
  1048576, and the leaf of the 70000 bytes apart from the leaf of the 500000 bytes.
\<close>

theorem no_double_counting_witness:
  "reachable tree_500000 \<and> used_total tree_500000 = 570000
   \<and> used_total tree_500000 \<le> BASE_SIZE * 2 ^ nat (bsize tree_500000)
   \<and> leaves tree_500000 ! 0 = Leaf 0 70000 1 \<and> leaves tree_500000 ! 3 = Leaf 524288 500000 3
   \<and> block_range (Leaf 0 70000 1) \<inter> block_range (Leaf 524288 500000 3) = {}"
proof -
  have h: "reachable tree_500000"
    by (rule reachable_nonzero_reachable[OF reachable_nonzero_tree_500000])
  have l: "leaves tree_500000
      = [Leaf 0 70000 1, Leaf 131072 0 1, Leaf 262144 0 2, Leaf 524288 500000 3]"
    by (simp add: tree_500000_def)
  have u: "used_total tree_500000 = 570000" by (simp add: tree_500000_def)
  from no_double_counting[OF h] have
    "used_total tree_500000 \<le> BASE_SIZE * 2 ^ nat (bsize tree_500000)"
    and "\<forall>i j. i < j \<and> j < length (leaves tree_500000) \<longrightarrow>
       block_range (leaves tree_500000 ! i) \<inter> block_range (leaves tree_500000 ! j) = {}"
    by simp_all
  from this(1) this(2)[rule_format, of 0 3] l u h show ?thesis by simp
qed

subsection \<open>C8: failures are values; what a failed call changes\<close>

text \<open>
  C8, against the code. A \<^verbatim>\<open>release\<close> that returns false still runs the merge test in
  every split node it visits. After a request of 0 bytes on a fresh tree of height 1 the
  root has two free leaves as children; the release of an address that starts no leaf
  returns false and merges them: the tree is not as it was.
\<close>

theorem failed_release_merges:
  "map_option (fst \<circ> snd) (allocate (newBuddy 0 1) (\<lambda>_. 0) 0 (\<lambda>_. 0))
     = Some (Split 0 0 1 (Leaf 0 0 0) (Leaf 65536 0 0))
   \<and> release (Split 0 0 1 (Leaf 0 0 0) (Leaf 65536 0 0)) 12345 = (False, Leaf 0 0 1)
   \<and> Leaf 0 0 1 \<noteq> Split 0 0 1 (Leaf 0 0 0) (Leaf 65536 0 0)"
  by (simp add: eval_simps)

text \<open>
  C8 as the code has it. Both failures are results: \<^verbatim>\<open>allocate\<close> returns NULL (\<open>None\<close> as
  the address), \<^verbatim>\<open>release\<close> returns false. In every tree state, an \<^verbatim>\<open>allocate\<close> that
  returns NULL leaves the tree and the memory as they were. A \<^verbatim>\<open>release\<close> that returns
  false writes no \<^verbatim>\<open>memLength\<close>: every node of the resulting tree has the length it had,
  and a node that is gone (merged away) had length 0. It leaves the tree as it was when
  the tree has no mergeable pair, and so in every state reached with allocations of at
  least one byte.
\<close>

theorem failures_change_nothing:
  "(allocate t mem numBytes data = Some (None, t', mem') \<longrightarrow> t' = t \<and> mem' = mem)
   \<and> (release t p = (False, t2) \<longrightarrow>
        (\<forall>q v. lengthAt t2 q = Some v \<longrightarrow> lengthAt t q = Some v)
        \<and> (\<forall>q v. lengthAt t q = Some v \<longrightarrow> lengthAt t2 q = Some v \<or> (lengthAt t2 q = None \<and> v = 0))
        \<and> (merged t \<longrightarrow> t2 = t)
        \<and> (reachable_nonzero t \<longrightarrow> t2 = t))"
proof (intro conjI impI)
  assume a: "allocate t mem numBytes data = Some (None, t', mem')"
  then show "t' = t" by (cases rule: allocate_cases) simp_all
  from a show "mem' = mem" by (cases rule: allocate_cases) simp_all
next
  assume r: "release t p = (False, t2)"
  then have pr: "pruned t t2" by (rule release_failed_pruned)
  show "\<forall>q v. lengthAt t2 q = Some v \<longrightarrow> lengthAt t q = Some v"
    using pruned_keeps[OF pr] by blast
  show "\<forall>q v. lengthAt t q = Some v \<longrightarrow> lengthAt t2 q = Some v \<or> (lengthAt t2 q = None \<and> v = 0)"
    using pruned_removes_zero[OF pr] by blast
  {
    assume "merged t"
    then show "t2 = t" using r by (rule release_failed_merged)
  }
  assume "reachable_nonzero t"
  then have "merged t" by (rule reachable_nonzero_merged)
  then show "t2 = t" using r by (rule release_failed_merged)
qed

text \<open>
  The theorem in the scenario, after both allocations: a request of 600000 bytes fails,
  and so does the release of an address inside the 70000-byte block; the length 500000
  of the right child of the root stays, and so does the whole tree.
\<close>

theorem failures_change_nothing_witness:
  "allocate tree_500000 (\<lambda>_. 0) 600000 (\<lambda>_. 0) = Some (None, tree_500000, \<lambda>_. 0)
   \<and> release tree_500000 12345 = (False, tree_500000)
   \<and> lengthAt tree_500000 [GoRight] = Some 500000
   \<and> reachable_nonzero tree_500000"
proof -
  have a: "allocate tree_500000 (\<lambda>_. 0) 600000 (\<lambda>_. 0) = Some (None, tree_500000, \<lambda>_. 0)"
    by (simp add: eval_simps tree_500000_def)
  obtain t2 where r: "release tree_500000 12345 = (False, t2)"
    by (simp add: eval_simps tree_500000_def)
  from failures_change_nothing[of tree_500000 "\<lambda>_. 0" 600000 "\<lambda>_. 0" tree_500000 "\<lambda>_. 0" 12345 t2]
    r reachable_nonzero_tree_500000 have "t2 = tree_500000" by blast
  with r a reachable_nonzero_tree_500000 show ?thesis by (simp add: lengthAt_def tree_500000_def)
qed

subsection \<open>C9: a split node stores no length\<close>

text \<open>
  C9. In every reachable state every split node has \<^verbatim>\<open>memLength\<close> 0, and a node that
  \<^verbatim>\<open>check\<close> returns, the only kind of node \<^verbatim>\<open>allocate\<close> starts to split, is an unsplit leaf
  with \<^verbatim>\<open>memLength\<close> 0.
\<close>

theorem split_nodes_store_zero:
  assumes "reachable t"
  shows "(\<forall>q n. node_at t q = Some n \<and> isTerminal n \<longrightarrow> getLength n = 0)
    \<and> (\<forall>numBytes q. check t numBytes = Some (Some q) \<longrightarrow> (\<exists>a s. node_at t q = Some (Leaf a 0 s)))"
proof (intro conjI allI impI)
  fix q n assume h: "node_at t q = Some n \<and> isTerminal n"
  from reachable_invariants[OF assms] have "splitZero t" by simp
  with h have "splitZero n" using node_at_splitZero by blast
  with h show "getLength n = 0" by (cases n) (simp_all add: getLength_def)
next
  fix numBytes q assume "check t numBytes = Some (Some q)"
  from check_finds_free_leaf[OF this] show "\<exists>a s. node_at t q = Some (Leaf a 0 s)" by blast
qed

text \<open>The theorem in the scenario, at the left child of the root and for the next request.\<close>

theorem split_nodes_store_zero_witness:
  "reachable tree_70000
   \<and> isTerminal (Split 0 0 3 (Split 0 0 2 (Leaf 0 70000 1) (Leaf 131072 0 1)) (Leaf 262144 0 2))
   \<and> node_at tree_70000 [GoLeft]
       = Some (Split 0 0 3 (Split 0 0 2 (Leaf 0 70000 1) (Leaf 131072 0 1)) (Leaf 262144 0 2))
   \<and> getLength (Split 0 0 3 (Split 0 0 2 (Leaf 0 70000 1) (Leaf 131072 0 1)) (Leaf 262144 0 2)) = 0
   \<and> check tree_70000 500000 = Some (Some [GoRight])
   \<and> node_at tree_70000 [GoRight] = Some (Leaf 524288 0 3)"
proof -
  let ?n = "Split 0 0 3 (Split 0 0 2 (Leaf 0 70000 1) (Leaf 131072 0 1)) (Leaf 262144 0 2)"
  have h: "reachable tree_70000"
    by (rule reachable_nonzero_reachable[OF reachable_nonzero_tree_70000])
  have n: "node_at tree_70000 [GoLeft] = Some ?n" "isTerminal ?n" by (simp_all add: tree_70000_def)
  have c: "check tree_70000 500000 = Some (Some [GoRight])"
    by (simp add: eval_simps tree_70000_def)
  from split_nodes_store_zero[OF h] n have "getLength ?n = 0" by blast
  moreover from split_nodes_store_zero[OF h] c
  have "\<exists>a s. node_at tree_70000 [GoRight] = Some (Leaf a 0 s)" by blast
  then have "node_at tree_70000 [GoRight] = Some (Leaf 524288 0 3)" by (simp add: tree_70000_def)
  ultimately show ?thesis using h n c by simp
qed

subsection \<open>C10: the tree is maximally merged\<close>

text \<open>
  C10, against the code. A request of 0 bytes on a fresh tree of height 1 splits the root
  and stores length 0 in the left child: the call ends with a split node whose two
  children are leaves with \<^verbatim>\<open>memLength\<close> 0.
\<close>

theorem allocate_zero_leaves_mergeable_pair:
  "map_option (fst \<circ> snd) (allocate (newBuddy 0 1) (\<lambda>_. 0) 0 (\<lambda>_. 0))
     = Some (Split 0 0 1 (Leaf 0 0 0) (Leaf 65536 0 0))
   \<and> free_leaf (Leaf 0 0 0) \<and> free_leaf (Leaf 65536 0 0)
   \<and> \<not> merged (Split 0 0 1 (Leaf 0 0 0) (Leaf 65536 0 0))"
  by (simp add: eval_simps)

text \<open>
  C10 as the code has it. In every state reached with allocations of at least one byte,
  no split node has two children that are both leaves with \<^verbatim>\<open>memLength\<close> 0, and a
  \<^verbatim>\<open>release\<close> that returns false leaves the tree as it was.
\<close>

theorem nonzero_states_are_merged:
  assumes "reachable_nonzero t"
  shows "(\<forall>q a l s lt rt. node_at t q = Some (Split a l s lt rt) \<longrightarrow> \<not> (free_leaf lt \<and> free_leaf rt))
    \<and> (\<forall>p t'. release t p = (False, t') \<longrightarrow> t' = t)"
proof (intro conjI allI impI)
  fix q a l s lt rt assume "node_at t q = Some (Split a l s lt rt)"
  with reachable_nonzero_merged[OF assms] have "merged (Split a l s lt rt)"
    using node_at_merged by blast
  then show "\<not> (free_leaf lt \<and> free_leaf rt)" by auto
next
  fix p t' assume "release t p = (False, t')"
  with reachable_nonzero_merged[OF assms] show "t' = t" by (rule release_failed_merged)
qed

text \<open>
  The theorem in the scenario, after both allocations: the node of height 2 has an
  occupied left child, and the release of an address that starts no leaf changes nothing.
\<close>

theorem nonzero_states_are_merged_witness:
  "reachable_nonzero tree_500000
   \<and> node_at tree_500000 [GoLeft, GoLeft] = Some (Split 0 0 2 (Leaf 0 70000 1) (Leaf 131072 0 1))
   \<and> \<not> (free_leaf (Leaf 0 70000 1) \<and> free_leaf (Leaf 131072 0 1))
   \<and> release tree_500000 4096 = (False, tree_500000)"
proof -
  have n: "node_at tree_500000 [GoLeft, GoLeft] = Some (Split 0 0 2 (Leaf 0 70000 1) (Leaf 131072 0 1))"
    by (simp add: tree_500000_def)
  obtain t' where r: "release tree_500000 4096 = (False, t')"
    by (simp add: eval_simps tree_500000_def)
  from nonzero_states_are_merged[OF reachable_nonzero_tree_500000] n
  have "\<not> (free_leaf (Leaf 0 70000 1) \<and> free_leaf (Leaf 131072 0 1))" by blast
  moreover from nonzero_states_are_merged[OF reachable_nonzero_tree_500000] r
  have "t' = tree_500000" by blast
  ultimately show ?thesis using reachable_nonzero_tree_500000 n r by simp
qed

end
